theory Spec2Isabelle
  imports Main "HOL-Library.AList"
begin


section \<open>Board: the edge grid (board.py)\<close>

text \<open>
  A node is a pair of Python integers \<open>(row, col)\<close>.  Tuples compare
  lexicographically in Python, which is what \<open>_normalize_edge\<close> relies on.
\<close>

type_synonym node = "int \<times> int"
type_synonym edge = "node \<times> node"

datatype EdgeState = EMPTY | PLAYER1 | PLAYER2

text \<open>
  The dictionary \<open>self.edges\<close> keeps insertion order; it is an association list whose
  assignment \<open>d[k] = v\<close> is \<open>AList.update\<close> (overwrite in place, or append a new key).
\<close>

record board =
  rows :: int
  cols :: int
  edges :: "(edge \<times> EdgeState) list"

definition node_less :: "node \<Rightarrow> node \<Rightarrow> bool" where
  "node_less a b = (fst a < fst b \<or> (fst a = fst b \<and> snd a < snd b))"

definition normalize_edge :: "node \<Rightarrow> node \<Rightarrow> edge" where
  "normalize_edge node1 node2 = (if node_less node1 node2 then (node1, node2) else (node2, node1))"

text \<open>\<open>range(n)\<close> for a Python integer \<open>n\<close>: empty when \<open>n \<le> 0\<close>.\<close>

definition range_py :: "int \<Rightarrow> int list" where
  "range_py n = [0..n - 1]"

definition init_cell :: "int \<Rightarrow> int \<Rightarrow> int \<Rightarrow> int \<Rightarrow> (edge \<times> EdgeState) list \<Rightarrow> (edge \<times> EdgeState) list" where
  "init_cell R C row col es =
     (let es1 = (if col < C - 1
                 then AList.update (normalize_edge (row, col) (row, col + 1)) EMPTY es else es)
      in (if row < R - 1
          then AList.update (normalize_edge (row, col) (row + 1, col)) EMPTY es1 else es1))"

definition initialize_edges :: "int \<Rightarrow> int \<Rightarrow> (edge \<times> EdgeState) list" where
  "initialize_edges R C =
     fold (\<lambda>row es. fold (\<lambda>col es'. init_cell R C row col es') (range_py C) es) (range_py R) []"

definition Board :: "int \<Rightarrow> int \<Rightarrow> board" where
  "Board R C = \<lparr> rows = R, cols = C, edges = initialize_edges R C \<rparr>"

definition is_valid_move :: "board \<Rightarrow> node \<Rightarrow> node \<Rightarrow> bool" where
  "is_valid_move b node1 node2 = (map_of (edges b) (normalize_edge node1 node2) = Some EMPTY)"

definition player_state :: "int \<Rightarrow> EdgeState" where
  "player_state player = (if player = 1 then PLAYER1 else PLAYER2)"

definition place_bridge :: "board \<Rightarrow> node \<Rightarrow> node \<Rightarrow> int \<Rightarrow> bool \<times> board" where
  "place_bridge b node1 node2 player =
     (if \<not> is_valid_move b node1 node2 then (False, b)
      else (True, b\<lparr>edges := AList.update (normalize_edge node1 node2) (player_state player) (edges b)\<rparr>))"

definition get_edge_state :: "board \<Rightarrow> node \<Rightarrow> node \<Rightarrow> EdgeState" where
  "get_edge_state b node1 node2 =
     (case map_of (edges b) (normalize_edge node1 node2) of None \<Rightarrow> EMPTY | Some s \<Rightarrow> s)"

definition get_neighbors :: "board \<Rightarrow> node \<Rightarrow> node list" where
  "get_neighbors b node =
     map (\<lambda>(dr, dc). (fst node + dr, snd node + dc))
       (filter (\<lambda>(dr, dc). 0 \<le> fst node + dr \<and> fst node + dr < rows b
                          \<and> 0 \<le> snd node + dc \<and> snd node + dc < cols b)
          [(-1, 0), (1, 0), (0, -1), (0, 1)])"

definition get_player_edges :: "board \<Rightarrow> int \<Rightarrow> edge set" where
  "get_player_edges b player =
     fst ` set (filter (\<lambda>(e, s). s = player_state player) (edges b))"

text \<open>
  The nested \<open>dfs\<close> closure of \<open>_has_path_between_sets\<close> mutates the shared set
  \<open>visited\<close>; the model threads it through and returns it with the answer.
  \<open>dfs_neighbors\<close> is the \<open>for neighbor in self.get_neighbors(node)\<close> loop.
  \<open>dfs\<close> here is the search run to its end.  The interpreter also limits the depth of
  the recursion; the search under that limit is \<open>dfs_within\<close> below.
\<close>

definition board_nodes :: "board \<Rightarrow> node set" where
  "board_nodes b = {0..<rows b} \<times> {0..<cols b}"

function dfs :: "board \<Rightarrow> int \<Rightarrow> node list \<Rightarrow> node set \<Rightarrow> node \<Rightarrow> bool \<times> node set"
  and dfs_neighbors :: "board \<Rightarrow> int \<Rightarrow> node list \<Rightarrow> node set \<Rightarrow> node \<Rightarrow> node list \<Rightarrow> bool \<times> node set"
where
  "dfs b player end_nodes visited node =
     (if node \<in> visited then (False, visited)
      else if node \<in> set end_nodes then (True, visited)
      else dfs_neighbors b player end_nodes (insert node visited) node (get_neighbors b node))"
| "dfs_neighbors b player end_nodes visited node [] = (False, visited)"
| "dfs_neighbors b player end_nodes visited node (neighbor # rest) =
     (if get_edge_state b node neighbor = player_state player
      then (case dfs b player end_nodes visited neighbor of
              (True, visited') \<Rightarrow> (True, visited')
            | (False, visited') \<Rightarrow> dfs_neighbors b player end_nodes visited' node rest)
      else dfs_neighbors b player end_nodes visited node rest)"
  by pat_completeness auto

lemma get_neighbors_in_board: "set (get_neighbors b node) \<subseteq> board_nodes b"
  by (auto simp: get_neighbors_def board_nodes_def)

lemma finite_board_nodes: "finite (board_nodes b)"
  by (simp add: board_nodes_def)

lemma dfs_visited_grows_dom:
  "dfs_dfs_neighbors_dom (Inl (b, p, e, v, n)) \<Longrightarrow> v \<subseteq> snd (dfs b p e v n)"
  "dfs_dfs_neighbors_dom (Inr (b, p, e, v, n, ns)) \<Longrightarrow> v \<subseteq> snd (dfs_neighbors b p e v n ns)"
proof (induction b p e v n and b p e v n ns rule: dfs_dfs_neighbors.pinduct)
  case (1 b player end_nodes visited node)
  then show ?case
    by (auto simp: dfs.psimps)
next
  case (2 b player end_nodes visited node)
  then show ?case by (simp add: dfs_neighbors.psimps)
next
  case (3 b player end_nodes visited node neighbor rest)
  show ?case
  proof (cases "get_edge_state b node neighbor = player_state player")
    case False
    with 3 show ?thesis by (simp add: dfs_neighbors.psimps)
  next
    case True
    obtain found v' where r: "dfs b player end_nodes visited neighbor = (found, v')"
      by (cases "dfs b player end_nodes visited neighbor")
    from 3(2) [OF True] r have sub: "visited \<subseteq> v'" by simp
    show ?thesis
    proof (cases found)
      case True
      with 3(1) r sub \<open>get_edge_state b node neighbor = player_state player\<close>
      show ?thesis by (simp add: dfs_neighbors.psimps)
    next
      case False
      from False have "found = False" by simp
      from 3(3) [OF True r [symmetric] this]
      have "v' \<subseteq> snd (dfs_neighbors b player end_nodes v' node rest)" .
      with 3(1) r sub True False show ?thesis
        by (auto simp: dfs_neighbors.psimps)
    qed
  qed
qed

termination dfs
proof (relation "inv_image (less_than <*lex*> less_than)
      (\<lambda>x. case x of
          Inl (b, p, e, v, n) \<Rightarrow> (card ((board_nodes b \<union> {n}) - v), 0)
        | Inr (b, p, e, v, n, ns) \<Rightarrow> (card ((board_nodes b \<union> set ns) - v), Suc (length ns)))",
    goal_cases)
  case 1
  show ?case by (intro wf_inv_image wf_lex_prod wf_less_than)
next
  case (2 b player end_nodes visited node)
  have fin: "finite ((board_nodes b \<union> {node}) - visited)"
    using finite_board_nodes [of b] by simp
  have "(board_nodes b \<union> set (get_neighbors b node)) - insert node visited
          \<subset> (board_nodes b \<union> {node}) - visited"
    using 2 get_neighbors_in_board [of b node] by auto
  then have "card ((board_nodes b \<union> set (get_neighbors b node)) - insert node visited)
          < card ((board_nodes b \<union> {node}) - visited)"
    using fin by (rule psubset_card_mono [rotated])
  then show ?case by simp
next
  case (3 b player end_nodes visited node neighbor rest)
  have fin: "finite ((board_nodes b \<union> set (neighbor # rest)) - visited)"
    using finite_board_nodes [of b] by simp
  have "card ((board_nodes b \<union> {neighbor}) - visited)
          \<le> card ((board_nodes b \<union> set (neighbor # rest)) - visited)"
    by (rule card_mono [OF fin]) auto
  then show ?case by auto
next
  case (4 b player end_nodes visited node neighbor rest x y)
  have fin: "finite ((board_nodes b \<union> set (neighbor # rest)) - visited)"
    using finite_board_nodes [of b] by simp
  have "visited \<subseteq> snd (dfs b player end_nodes visited neighbor)"
    using 4 by (intro dfs_visited_grows_dom(1))
  then have "visited \<subseteq> y" using 4(2) by (metis snd_conv)
  then have "card ((board_nodes b \<union> set rest) - y)
          \<le> card ((board_nodes b \<union> set (neighbor # rest)) - visited)"
    by (intro card_mono [OF fin]) auto
  then show ?case by auto
next
  case (5 b player end_nodes visited node neighbor rest)
  have fin: "finite ((board_nodes b \<union> set (neighbor # rest)) - visited)"
    using finite_board_nodes [of b] by simp
  have "card ((board_nodes b \<union> set rest) - visited)
          \<le> card ((board_nodes b \<union> set (neighbor # rest)) - visited)"
    by (rule card_mono [OF fin]) auto
  then show ?case by auto
qed


text \<open>
  \<open>_has_path_between_sets\<close>: one search per start node, each from a cleared
  \<open>visited\<close> set, stopping at the first success.
\<close>

fun has_path_between_sets :: "board \<Rightarrow> node list \<Rightarrow> node list \<Rightarrow> int \<Rightarrow> bool" where
  "has_path_between_sets b [] end_nodes player = False"
| "has_path_between_sets b (start_node # rest) end_nodes player =
     (if fst (dfs b player end_nodes {} start_node) then True
      else has_path_between_sets b rest end_nodes player)"

definition start_nodes :: "board \<Rightarrow> int \<Rightarrow> node list" where
  "start_nodes b player =
     (if player = 1 then map (\<lambda>col. (0, col)) (range_py (cols b))
      else map (\<lambda>row. (row, 0)) (range_py (rows b)))"

definition end_nodes :: "board \<Rightarrow> int \<Rightarrow> node list" where
  "end_nodes b player =
     (if player = 1 then map (\<lambda>col. (rows b - 1, col)) (range_py (cols b))
      else map (\<lambda>row. (row, cols b - 1)) (range_py (rows b)))"

definition has_winning_path :: "board \<Rightarrow> int \<Rightarrow> bool" where
  "has_winning_path b player =
     has_path_between_sets b (start_nodes b player) (end_nodes b player) player"

text \<open>
  The recursion limit.  \<open>dfs\<close> calls itself once for every node of the path it follows,
  and the interpreter raises \<open>RecursionError\<close> when the calls nest deeper than it has
  room for.  In \<open>dfs_within depth\<close> the number \<open>depth\<close> is the number of nested
  activations of \<open>dfs\<close> that the interpreter still has room for when \<open>dfs\<close> is
  called (each counted with the frames of its calls of \<open>get_neighbors\<close>,
  \<open>get_edge_state\<close> and \<open>_normalize_edge\<close>); with the default limit of 1000 frames
  and the few frames of the callers it is a little below 1000.  Nothing catches the
  exception, so it leaves \<open>_has_path_between_sets\<close> and \<open>has_winning_path\<close>.
\<close>

datatype py_error = ValueError | IndexError | KeyError | RecursionError

function dfs_within ::
    "nat \<Rightarrow> board \<Rightarrow> int \<Rightarrow> node list \<Rightarrow> node set \<Rightarrow> node \<Rightarrow> py_error + (bool \<times> node set)"
  and dfs_neighbors_within ::
    "nat \<Rightarrow> board \<Rightarrow> int \<Rightarrow> node list \<Rightarrow> node set \<Rightarrow> node \<Rightarrow> node list
       \<Rightarrow> py_error + (bool \<times> node set)"
where
  "dfs_within 0 b player ends visited node = Inl RecursionError"
| "dfs_within (Suc depth) b player ends visited node =
     (if node \<in> visited then Inr (False, visited)
      else if node \<in> set ends then Inr (True, visited)
      else dfs_neighbors_within depth b player ends (insert node visited) node
             (get_neighbors b node))"
| "dfs_neighbors_within depth b player ends visited node [] = Inr (False, visited)"
| "dfs_neighbors_within depth b player ends visited node (neighbor # rest) =
     (if get_edge_state b node neighbor = player_state player
      then (case dfs_within depth b player ends visited neighbor of
              Inl e \<Rightarrow> Inl e
            | Inr (True, visited') \<Rightarrow> Inr (True, visited')
            | Inr (False, visited') \<Rightarrow>
                dfs_neighbors_within depth b player ends visited' node rest)
      else dfs_neighbors_within depth b player ends visited node rest)"
  by pat_completeness auto
termination dfs_within
  by (relation "inv_image (less_than <*lex*> less_than)
        (\<lambda>x. case x of
            Inl (depth, b, p, e, v, n) \<Rightarrow> (2 * depth, 0)
          | Inr (depth, b, p, e, v, n, ns) \<Rightarrow> (2 * depth + 1, length ns))")
     auto

fun has_path_between_sets_within ::
    "nat \<Rightarrow> board \<Rightarrow> node list \<Rightarrow> node list \<Rightarrow> int \<Rightarrow> py_error + bool" where
  "has_path_between_sets_within depth b [] ends player = Inr False"
| "has_path_between_sets_within depth b (start_node # rest) ends player =
     (case dfs_within depth b player ends {} start_node of
        Inl e \<Rightarrow> Inl e
      | Inr (True, _) \<Rightarrow> Inr True
      | Inr (False, _) \<Rightarrow> has_path_between_sets_within depth b rest ends player)"

definition has_winning_path_within :: "nat \<Rightarrow> board \<Rightarrow> int \<Rightarrow> py_error + bool" where
  "has_winning_path_within depth b player =
     has_path_between_sets_within depth b (start_nodes b player) (end_nodes b player) player"


section \<open>Players and the game engine (player.py, game.py)\<close>

datatype PlayerType = HUMAN | AI

record player =
  player_id :: int
  name :: string
  color :: string
  player_type :: PlayerType
  moves_made :: int

definition Player :: "int \<Rightarrow> string \<Rightarrow> string \<Rightarrow> PlayerType \<Rightarrow> player" where
  "Player pid nm col ptype =
     \<lparr> player_id = pid, name = nm, color = col, player_type = ptype, moves_made = 0 \<rparr>"

datatype GameState = SETUP | PLAYING | FINISHED

text \<open>
  \<open>Player\<close> objects are mutable and shared: \<open>self.players\<close>, the local
  \<open>current_player\<close> of \<open>make_move\<close> and \<open>self.winner\<close> refer to the same objects.
  The objects live in the list \<open>players\<close>; a reference to one of them is its position
  in that list, so \<open>winner\<close> is an optional position.
\<close>

record game =
  board :: board
  players :: "player list"
  current_player_index :: int
  game_state :: GameState
  winner :: "nat option"
  move_history :: "(node \<times> node \<times> int) list"

definition BridgeItGame :: "int \<Rightarrow> int \<Rightarrow> game" where
  "BridgeItGame board_rows board_cols =
     \<lparr> board = Board board_rows board_cols, players = [], current_player_index = 0,
       game_state = SETUP, winner = None, move_history = [] \<rparr>"

text \<open>
  Every method of the engine mutates \<open>self\<close>; its model returns the outcome together
  with the engine afterwards.  The outcome of a method that can raise is a sum: \<open>Inl\<close>
  the exception that reaches the caller, \<open>Inr\<close> the value returned.  The engine
  returned with an exception is the one the exception leaves behind.
\<close>

definition add_player :: "game \<Rightarrow> string \<Rightarrow> string \<Rightarrow> PlayerType \<Rightarrow> (py_error + player) \<times> game" where
  "add_player g nm col ptype =
     (if length (players g) \<ge> 2 then (Inl ValueError, g)
      else (let p = Player (int (length (players g)) + 1) nm col ptype
            in (Inr p, g\<lparr>players := players g @ [p]\<rparr>)))"

definition start_game :: "game \<Rightarrow> bool \<times> game" where
  "start_game g =
     (if length (players g) \<noteq> 2 then (False, g)
      else (True, g\<lparr>game_state := PLAYING, current_player_index := 0\<rparr>))"

text \<open>
  \<open>self.players[self.current_player_index]\<close>: the position that Python reads, where an
  index below zero is taken from the end of the list, or \<open>IndexError\<close>.
\<close>

definition list_position :: "'a list \<Rightarrow> int \<Rightarrow> py_error + nat" where
  "list_position xs i =
     (if 0 \<le> i \<and> i < int (length xs) then Inr (nat i)
      else if i < 0 \<and> - int (length xs) \<le> i then Inr (nat (int (length xs) + i))
      else Inl IndexError)"

definition get_current_player :: "game \<Rightarrow> py_error + nat option" where
  "get_current_player g =
     (if game_state g \<noteq> PLAYING \<or> players g = [] then Inr None
      else (case list_position (players g) (current_player_index g) of
              Inl e \<Rightarrow> Inl e
            | Inr j \<Rightarrow> Inr (Some j)))"

definition make_move :: "game \<Rightarrow> node \<Rightarrow> node \<Rightarrow> (py_error + bool) \<times> game" where
  "make_move g node1 node2 =
     (if game_state g \<noteq> PLAYING then (Inr False, g)
      else (case get_current_player g of
              Inl e \<Rightarrow> (Inl e, g)
            | Inr None \<Rightarrow> (Inr False, g)
            | Inr (Some j) \<Rightarrow>
                (let current_player = players g ! j;
                     pid = player_id current_player
                 in (case place_bridge (board g) node1 node2 pid of
                       (False, _) \<Rightarrow> (Inr False, g)
                     | (True, b') \<Rightarrow>
                         (let g1 = g\<lparr> board := b',
                                     move_history := move_history g @ [(node1, node2, pid)],
                                     players := (players g)
                                        [j := current_player\<lparr>moves_made := moves_made current_player + 1\<rparr>] \<rparr>
                          in if has_winning_path b' pid
                             then (Inr True, g1\<lparr>winner := Some j, game_state := FINISHED\<rparr>)
                             else (Inr True, g1\<lparr>current_player_index := 1 - current_player_index g\<rparr>))))))"

text \<open>
  \<open>make_move\<close> above is the method when the search for a winning path runs to its
  end.  \<open>make_move_within depth\<close> is the method under the recursion limit, with room for
  \<open>depth\<close> nested activations of \<open>dfs\<close>: a \<open>RecursionError\<close> of the search reaches
  the caller after the edge is placed, the history appended and the counter incremented.
\<close>

definition make_move_within :: "nat \<Rightarrow> game \<Rightarrow> node \<Rightarrow> node \<Rightarrow> (py_error + bool) \<times> game" where
  "make_move_within depth g node1 node2 =
     (if game_state g \<noteq> PLAYING then (Inr False, g)
      else (case get_current_player g of
              Inl e \<Rightarrow> (Inl e, g)
            | Inr None \<Rightarrow> (Inr False, g)
            | Inr (Some j) \<Rightarrow>
                (let current_player = players g ! j;
                     pid = player_id current_player
                 in (case place_bridge (board g) node1 node2 pid of
                       (False, _) \<Rightarrow> (Inr False, g)
                     | (True, b') \<Rightarrow>
                         (let g1 = g\<lparr> board := b',
                                     move_history := move_history g @ [(node1, node2, pid)],
                                     players := (players g)
                                        [j := current_player\<lparr>moves_made := moves_made current_player + 1\<rparr>] \<rparr>
                          in (case has_winning_path_within depth b' pid of
                                Inl e \<Rightarrow> (Inl e, g1)
                              | Inr True \<Rightarrow> (Inr True, g1\<lparr>winner := Some j, game_state := FINISHED\<rparr>)
                              | Inr False \<Rightarrow>
                                  (Inr True, g1\<lparr>current_player_index := 1 - current_player_index g\<rparr>)))))))"

definition get_available_moves :: "game \<Rightarrow> edge list" where
  "get_available_moves g = map fst (filter (\<lambda>(e, s). s = EMPTY) (edges (board g)))"

text \<open>
  The loop of \<open>undo_last_move\<close> over \<open>self.players\<close>: the first player whose id is
  \<open>pid\<close> has its counter decremented, then the loop breaks.
\<close>

fun decrement_moves :: "int \<Rightarrow> player list \<Rightarrow> player list" where
  "decrement_moves pid [] = []"
| "decrement_moves pid (p # ps) =
     (if player_id p = pid then p\<lparr>moves_made := moves_made p - 1\<rparr> # ps
      else p # decrement_moves pid ps)"

text \<open>
  \<open>undo_last_move\<close> pops the history first.  It then reads \<open>self.board.edges[edge]\<close>
  before overwriting it with \<open>EdgeState(0)\<close>, so an edge that is not a key raises
  \<open>KeyError\<close> with the history already popped.
\<close>

definition undo_last_move :: "game \<Rightarrow> (py_error + bool) \<times> game" where
  "undo_last_move g =
     (if move_history g = [] \<or> game_state g = FINISHED then (Inr False, g)
      else (case last (move_history g) of (node1, node2, pid) \<Rightarrow>
              (let g1 = g\<lparr>move_history := butlast (move_history g)\<rparr>;
                   edge = normalize_edge node1 node2
               in (case map_of (edges (board g1)) edge of
                     None \<Rightarrow> (Inl KeyError, g1)
                   | Some _ \<Rightarrow>
                       (Inr True,
                        g1\<lparr> board := (board g1)\<lparr>edges := AList.update edge EMPTY (edges (board g1))\<rparr>,
                            players := decrement_moves pid (players g1),
                            current_player_index := 1 - current_player_index g1 \<rparr>)))))"

definition reset_game :: "game \<Rightarrow> game" where
  "reset_game g =
     g\<lparr> board := Board (rows (board g)) (cols (board g)),
        current_player_index := 0,
        game_state := (if length (players g) \<noteq> 2 then SETUP else PLAYING),
        winner := None,
        move_history := [],
        players := map (\<lambda>p. p\<lparr>moves_made := 0\<rparr>) (players g) \<rparr>"


section \<open>Notions used to state the properties\<close>

text \<open>All horizontal and all vertical pairs of adjacent nodes of an \<open>R \<times> C\<close> grid.\<close>

definition horizontal_pairs :: "int \<Rightarrow> int \<Rightarrow> edge set" where
  "horizontal_pairs R C = (\<lambda>(r, c). ((r, c), (r, c + 1))) ` ({0..<R} \<times> {0..<C - 1})"

definition vertical_pairs :: "int \<Rightarrow> int \<Rightarrow> edge set" where
  "vertical_pairs R C = (\<lambda>(r, c). ((r, c), (r + 1, c))) ` ({0..<R - 1} \<times> {0..<C})"

definition adjacent_pairs :: "int \<Rightarrow> int \<Rightarrow> edge set" where
  "adjacent_pairs R C = horizontal_pairs R C \<union> vertical_pairs R C"

text \<open>
  The engine states that calls of the public methods can produce, starting from a newly
  constructed engine.
\<close>

inductive reachable :: "game \<Rightarrow> bool" where
  reach_new: "reachable (BridgeItGame board_rows board_cols)"
| reach_add_player: "reachable g \<Longrightarrow> reachable (snd (add_player g nm col ptype))"
| reach_start_game: "reachable g \<Longrightarrow> reachable (snd (start_game g))"
| reach_make_move: "reachable g \<Longrightarrow> reachable (snd (make_move g node1 node2))"
| reach_undo_last_move: "reachable g \<Longrightarrow> reachable (snd (undo_last_move g))"
| reach_reset_game: "reachable g \<Longrightarrow> reachable (reset_game g)"

text \<open>
  What the engine maintains between its board, its players and its history.  An entry
  \<open>(node1, node2, player_id)\<close> of the history stands for the canonical edge it placed.
\<close>

definition history_edge :: "node \<times> node \<times> int \<Rightarrow> edge" where
  "history_edge m = normalize_edge (fst m) (fst (snd m))"

definition history_player :: "node \<times> node \<times> int \<Rightarrow> int" where
  "history_player m = snd (snd m)"

definition board_inv :: "board \<Rightarrow> (node \<times> node \<times> int) list \<Rightarrow> bool" where
  "board_inv b h \<longleftrightarrow>
     distinct (map fst (edges b))
   \<and> fst ` set (edges b) = adjacent_pairs (rows b) (cols b)
   \<and> distinct (map history_edge h)
   \<and> (\<forall>m \<in> set h. map_of (edges b) (history_edge m) = Some (player_state (history_player m)))
   \<and> (\<forall>e s. map_of (edges b) e = Some s \<longrightarrow> s \<noteq> EMPTY \<longrightarrow> e \<in> history_edge ` set h)"

definition moves_counted :: "(node \<times> node \<times> int) list \<Rightarrow> player \<Rightarrow> bool" where
  "moves_counted h q \<longleftrightarrow>
     moves_made q = int (length (filter (\<lambda>m. history_player m = player_id q) h))"

definition players_inv :: "player list \<Rightarrow> (node \<times> node \<times> int) list \<Rightarrow> bool" where
  "players_inv ps h \<longleftrightarrow>
     map player_id ps = take (length ps) [1, 2]
   \<and> (\<forall>q \<in> set ps. moves_counted h q)
   \<and> (\<forall>m \<in> set h. history_player m = 1 \<or> history_player m = 2)"

definition engine_inv :: "game \<Rightarrow> bool" where
  "engine_inv g \<longleftrightarrow>
     board_inv (board g) (move_history g)
   \<and> players_inv (players g) (move_history g)
   \<and> (current_player_index g = 0 \<or> current_player_index g = 1)
   \<and> (length (players g) \<noteq> 2 \<longrightarrow> game_state g = SETUP \<and> move_history g = [])"

text \<open>The number of edges that one of the two players owns.\<close>

definition owned_edge_count :: "board \<Rightarrow> nat" where
  "owned_edge_count b = card (get_player_edges b 1 \<union> get_player_edges b 2)"

text \<open>
  The history is as long as the number of owned edges and as the sum of the players'
  move counters.
\<close>

definition history_matches :: "game \<Rightarrow> bool" where
  "history_matches g \<longleftrightarrow>
     length (move_history g) = owned_edge_count (board g)
   \<and> int (length (move_history g)) = sum_list (map moves_made (players g))"

text \<open>Engines used as concrete examples: a 3 by 3 game with two players.\<close>

definition two_player_game :: game where
  "two_player_game =
     snd (add_player (snd (add_player (BridgeItGame 3 3) ''Ann'' ''Red'' HUMAN))
            ''Bob'' ''Blue'' HUMAN)"

definition started_game :: game where
  "started_game = snd (start_game two_player_game)"

definition moves :: "game \<Rightarrow> (node \<times> node) list \<Rightarrow> game" where
  "moves g ms = fold (\<lambda>(node1, node2) g'. snd (make_move g' node1 node2)) ms g"

definition finished_game :: game where
  "finished_game = moves started_game [((0, 0), (1, 0)), ((0, 1), (0, 2)), ((1, 0), (2, 0))]"

text \<open>
  A grid as the constructor builds it and \<open>place_bridge\<close> and the undo keep it: the
  keys of the dictionary are the adjacent pairs of the \<open>rows \<times> cols\<close> grid, each once.
\<close>

definition grid_ok :: "board \<Rightarrow> bool" where
  "grid_ok b \<longleftrightarrow>
     distinct (map fst (edges b)) \<and> fst ` set (edges b) = adjacent_pairs (rows b) (cols b)"


definition start_set :: "board \<Rightarrow> int \<Rightarrow> node set" where
  "start_set b player =
     (if player = 1 then {0} \<times> {0..<cols b} else {0..<rows b} \<times> {0})"

definition target_set :: "board \<Rightarrow> int \<Rightarrow> node set" where
  "target_set b player =
     (if player = 1 then {rows b - 1} \<times> {0..<cols b} else {0..<rows b} \<times> {cols b - 1})"

text \<open>The step that the search itself takes: to a neighbour over an edge in the player's state.\<close>

definition search_step :: "board \<Rightarrow> int \<Rightarrow> (node \<times> node) set" where
  "search_step b player =
     {(n, m). m \<in> set (get_neighbors b n) \<and> get_edge_state b n m = player_state player}"

text \<open>
  What a failed search has done between the visited set \<open>v\<close> it started with and the
  set \<open>v'\<close> it returns: every node it added is not a target, and every step from such
  a node leads into \<open>v'\<close>.
\<close>

definition explored :: "board \<Rightarrow> int \<Rightarrow> node list \<Rightarrow> node set \<Rightarrow> node set \<Rightarrow> bool" where
  "explored b p ends v v' \<longleftrightarrow>
     v \<subseteq> v' \<and> (\<forall>x \<in> v' - v. x \<notin> set ends \<and> (\<forall>y. (x, y) \<in> search_step b p \<longrightarrow> y \<in> v'))"

text \<open>
  The engine of \<open>make_move\<close> after a placement by the player at position \<open>j\<close> has been
  recorded (board, history, counter), before the check for a win.
\<close>

definition move_recorded :: "game \<Rightarrow> nat \<Rightarrow> node \<Rightarrow> node \<Rightarrow> game" where
  "move_recorded g j node1 node2 =
     g\<lparr> board := (board g)\<lparr>edges := AList.update (normalize_edge node1 node2)
                                   (player_state (player_id (players g ! j))) (edges (board g))\<rparr>,
        move_history := move_history g @ [(node1, node2, player_id (players g ! j))],
        players := (players g)[j := (players g ! j)\<lparr>moves_made := moves_made (players g ! j) + 1\<rparr>] \<rparr>"

text \<open>
  The engines that the public methods produce when \<open>start_game\<close> is called in phase
  \<open>SETUP\<close> only, and what then relates the turn to the history: the moves alternate
  between player 1 and player 2, and the index of the current player is the parity of the
  number of moves.
\<close>

inductive started_once :: "game \<Rightarrow> bool" where
  once_new: "started_once (BridgeItGame board_rows board_cols)"
| once_add_player: "started_once g \<Longrightarrow> started_once (snd (add_player g nm col ptype))"
| once_start_game: "started_once g \<Longrightarrow> game_state g = SETUP \<Longrightarrow> started_once (snd (start_game g))"
| once_make_move: "started_once g \<Longrightarrow> started_once (snd (make_move g node1 node2))"
| once_undo_last_move: "started_once g \<Longrightarrow> started_once (snd (undo_last_move g))"
| once_reset_game: "started_once g \<Longrightarrow> started_once (reset_game g)"

definition turn_inv :: "game \<Rightarrow> bool" where
  "turn_inv g \<longleftrightarrow>
     (game_state g = SETUP \<longrightarrow> move_history g = [])
   \<and> (\<forall>k < length (move_history g). history_player (move_history g ! k) = int (k mod 2) + 1)
   \<and> (game_state g \<noteq> FINISHED \<longrightarrow> current_player_index g = int (length (move_history g) mod 2))"


section \<open>Basic facts about the edge grid\<close>

lemma normalize_edge_commute: "normalize_edge n2 n1 = normalize_edge n1 n2"
  by (cases n1; cases n2) (auto simp: normalize_edge_def node_less_def)

lemma player_state_not_empty: "player_state p \<noteq> EMPTY"
  by (simp add: player_state_def)

lemma update_binding_present: "(k, v) \<in> set (AList.update k v al)"
  by (induction al) auto

lemma get_edge_state_update_same:
  "get_edge_state (b\<lparr>edges := AList.update (normalize_edge n1 n2) s (edges b)\<rparr>) n1 n2 = s"
  by (simp add: get_edge_state_def update_conv')

section \<open>Placing an edge\<close>

text \<open>
  Claim C8.  \<open>place_bridge\<close> returns true exactly when the canonical edge is a key of
  the grid whose state is \<open>EMPTY\<close>; in that case it overwrites that one entry with the
  marker of the player, \<open>PLAYER1\<close> for player 1 and \<open>PLAYER2\<close> for player 2, so that
  the edge is then among the edges of that player, and it leaves every other edge as it
  was.  When it returns false the board is returned unchanged.  After a successful
  placement, placing on the same pair again, in either order of the two nodes and for any
  player, returns false and changes nothing.
\<close>

theorem place_bridge_contract:
  assumes "place_bridge b n1 n2 p = (ok, b')"
  shows "(ok \<longleftrightarrow> normalize_edge n1 n2 \<in> fst ` set (edges b)
                \<and> map_of (edges b) (normalize_edge n1 n2) = Some EMPTY)
       \<and> (ok \<longrightarrow> b' = b\<lparr>edges := AList.update (normalize_edge n1 n2) (player_state p) (edges b)\<rparr>
                \<and> get_edge_state b' n1 n2 = player_state p
                \<and> player_state p \<noteq> EMPTY
                \<and> (\<forall>e. e \<noteq> normalize_edge n1 n2 \<longrightarrow> map_of (edges b') e = map_of (edges b) e))
       \<and> (ok \<and> p = 1 \<longrightarrow>
              b' = b\<lparr>edges := AList.update (normalize_edge n1 n2) PLAYER1 (edges b)\<rparr>
            \<and> get_edge_state b' n1 n2 = PLAYER1
            \<and> normalize_edge n1 n2 \<in> get_player_edges b' 1)
       \<and> (ok \<and> p = 2 \<longrightarrow>
              b' = b\<lparr>edges := AList.update (normalize_edge n1 n2) PLAYER2 (edges b)\<rparr>
            \<and> get_edge_state b' n1 n2 = PLAYER2
            \<and> normalize_edge n1 n2 \<in> get_player_edges b' 2)
       \<and> (\<not> ok \<longrightarrow> b' = b)
       \<and> (ok \<longrightarrow> (\<forall>q. place_bridge b' n1 n2 q = (False, b')
                      \<and> place_bridge b' n2 n1 q = (False, b')))"
proof (cases "is_valid_move b n1 n2")
  case False
  with assms have "ok = False" "b' = b"
    by (simp_all add: place_bridge_def)
  moreover from False have
    "\<not> (normalize_edge n1 n2 \<in> fst ` set (edges b)
        \<and> map_of (edges b) (normalize_edge n1 n2) = Some EMPTY)"
    by (simp add: is_valid_move_def)
  ultimately show ?thesis by simp
next
  case True
  let ?e = "normalize_edge n1 n2"
  from True assms have ok: "ok = True"
    and b': "b' = b\<lparr>edges := AList.update ?e (player_state p) (edges b)\<rparr>"
    by (simp_all add: place_bridge_def)
  from True have m: "map_of (edges b) ?e = Some EMPTY"
    by (simp add: is_valid_move_def)
  then have key: "?e \<in> fst ` set (edges b)"
    by (metis map_of_eq_None_iff option.distinct(1))
  have st: "get_edge_state b' n1 n2 = player_state p"
    unfolding b' by (rule get_edge_state_update_same)
  have other: "\<forall>e. e \<noteq> ?e \<longrightarrow> map_of (edges b') e = map_of (edges b) e"
    by (simp add: b' update_conv')
  have occupied: "map_of (edges b') ?e = Some (player_state p)"
    by (simp add: b' update_conv')
  have again: "place_bridge b' n1 n2 q = (False, b')" for q
    using occupied player_state_not_empty [of p]
    by (simp add: place_bridge_def is_valid_move_def)
  have again': "place_bridge b' n2 n1 q = (False, b')" for q
    using occupied player_state_not_empty [of p]
    by (simp add: place_bridge_def is_valid_move_def normalize_edge_commute [of n1 n2])
  have binding: "(?e, player_state p) \<in> set (edges b')"
    unfolding b' using update_binding_present [of ?e "player_state p" "edges b"] by simp
  have one: "b' = b\<lparr>edges := AList.update ?e PLAYER1 (edges b)\<rparr>
           \<and> get_edge_state b' n1 n2 = PLAYER1 \<and> ?e \<in> get_player_edges b' 1"
    if "p = 1"
  proof -
    from that have ps: "player_state p = PLAYER1" by (simp add: player_state_def)
    from binding ps have "?e \<in> get_player_edges b' 1"
      by (force simp: get_player_edges_def player_state_def)
    with b' st ps show ?thesis by simp
  qed
  have two: "b' = b\<lparr>edges := AList.update ?e PLAYER2 (edges b)\<rparr>
           \<and> get_edge_state b' n1 n2 = PLAYER2 \<and> ?e \<in> get_player_edges b' 2"
    if "p = 2"
  proof -
    from that have ps: "player_state p = PLAYER2" by (simp add: player_state_def)
    from binding ps have "?e \<in> get_player_edges b' 2"
      by (force simp: get_player_edges_def player_state_def)
    with b' st ps show ?thesis by simp
  qed
  have rest: "(ok \<longleftrightarrow> ?e \<in> fst ` set (edges b) \<and> map_of (edges b) ?e = Some EMPTY)
       \<and> (ok \<longrightarrow> b' = b\<lparr>edges := AList.update ?e (player_state p) (edges b)\<rparr>
                \<and> get_edge_state b' n1 n2 = player_state p
                \<and> player_state p \<noteq> EMPTY
                \<and> (\<forall>e. e \<noteq> ?e \<longrightarrow> map_of (edges b') e = map_of (edges b) e))
       \<and> (\<not> ok \<longrightarrow> b' = b)
       \<and> (ok \<longrightarrow> (\<forall>q. place_bridge b' n1 n2 q = (False, b')
                      \<and> place_bridge b' n2 n1 q = (False, b')))"
    using ok b' m key st other again again' player_state_not_empty [of p] by simp
  from rest one two show ?thesis by blast
qed

theorem place_bridge_contract_witness:
  "fst (place_bridge (Board 3 3) (0, 0) (0, 1) 1)
   \<and> get_edge_state (snd (place_bridge (Board 3 3) (0, 0) (0, 1) 1)) (0, 0) (0, 1) = PLAYER1
   \<and> normalize_edge (0, 0) (0, 1) \<in> get_player_edges (snd (place_bridge (Board 3 3) (0, 0) (0, 1) 1)) 1
   \<and> fst (place_bridge (Board 3 3) (1, 1) (2, 1) 2)
   \<and> get_edge_state (snd (place_bridge (Board 3 3) (1, 1) (2, 1) 2)) (1, 1) (2, 1) = PLAYER2
   \<and> normalize_edge (1, 1) (2, 1) \<in> get_player_edges (snd (place_bridge (Board 3 3) (1, 1) (2, 1) 2)) 2
   \<and> (\<forall>q. place_bridge (snd (place_bridge (Board 3 3) (0, 0) (0, 1) 1)) (0, 1) (0, 0) q
          = (False, snd (place_bridge (Board 3 3) (0, 0) (0, 1) 1)))
   \<and> place_bridge (Board 3 3) (0, 0) (2, 2) 1 = (False, Board 3 3)"
proof -
  let ?b1 = "snd (place_bridge (Board 3 3) (0, 0) (0, 1) 1)"
  let ?b2 = "snd (place_bridge (Board 3 3) (1, 1) (2, 1) 2)"
  have ok1: "fst (place_bridge (Board 3 3) (0, 0) (0, 1) 1)" by code_simp
  have ok2: "fst (place_bridge (Board 3 3) (1, 1) (2, 1) 2)" by code_simp
  from ok1 have h1: "place_bridge (Board 3 3) (0, 0) (0, 1) 1 = (True, ?b1)"
    by (simp add: prod_eq_iff)
  from ok2 have h2: "place_bridge (Board 3 3) (1, 1) (2, 1) 2 = (True, ?b2)"
    by (simp add: prod_eq_iff)
  have h3: "place_bridge (Board 3 3) (0, 0) (2, 2) 1 = (False, Board 3 3)"
    by code_simp
  from place_bridge_contract [OF h1]
  have 1: "get_edge_state ?b1 (0, 0) (0, 1) = PLAYER1
         \<and> normalize_edge (0, 0) (0, 1) \<in> get_player_edges ?b1 1
         \<and> (\<forall>q. place_bridge ?b1 (0, 1) (0, 0) q = (False, ?b1))"
    by blast
  from place_bridge_contract [OF h2]
  have 2: "get_edge_state ?b2 (1, 1) (2, 1) = PLAYER2
         \<and> normalize_edge (1, 1) (2, 1) \<in> get_player_edges ?b2 2"
    by blast
  from ok1 ok2 1 2 h3 show ?thesis by blast
qed

section \<open>Player ids outside 1 and 2\<close>

text \<open>
  Claim C10.  The board compares the player id with 1 only: every other id, whether 0,
  negative or above 2, gets the marker \<open>PLAYER2\<close>.  Placing for such an id is the same
  as placing for player 2, on a valid empty edge it succeeds and the edge is then owned by
  player 2, and \<open>get_player_edges\<close> for such an id is the set of player 2's edges.
\<close>

theorem other_player_ids_are_player2:
  assumes "p \<noteq> 1"
  shows "player_state p = PLAYER2
       \<and> place_bridge b n1 n2 p = place_bridge b n1 n2 2
       \<and> get_player_edges b p = get_player_edges b 2
       \<and> (is_valid_move b n1 n2 \<longrightarrow>
            fst (place_bridge b n1 n2 p)
          \<and> get_edge_state (snd (place_bridge b n1 n2 p)) n1 n2 = PLAYER2
          \<and> normalize_edge n1 n2 \<in> get_player_edges (snd (place_bridge b n1 n2 p)) p
          \<and> normalize_edge n1 n2 \<in> get_player_edges (snd (place_bridge b n1 n2 p)) 2)"
proof -
  from assms have ps: "player_state p = PLAYER2" "player_state 2 = PLAYER2"
    by (simp_all add: player_state_def)
  have same: "place_bridge b n1 n2 p = place_bridge b n1 n2 2"
    by (simp add: place_bridge_def ps)
  have owned: "get_player_edges b' p = get_player_edges b' 2" for b'
    by (simp add: get_player_edges_def ps)
  have valid: "fst (place_bridge b n1 n2 p)
          \<and> get_edge_state (snd (place_bridge b n1 n2 p)) n1 n2 = PLAYER2
          \<and> normalize_edge n1 n2 \<in> get_player_edges (snd (place_bridge b n1 n2 p)) 2"
    if v: "is_valid_move b n1 n2"
  proof -
    have "(normalize_edge n1 n2, PLAYER2)
            \<in> set (AList.update (normalize_edge n1 n2) PLAYER2 (edges b))"
      by (rule update_binding_present)
    then have "normalize_edge n1 n2
            \<in> fst ` set (filter (\<lambda>(e, s). s = PLAYER2)
                           (AList.update (normalize_edge n1 n2) PLAYER2 (edges b)))"
      by force
    with v show ?thesis
      by (simp add: place_bridge_def ps get_player_edges_def get_edge_state_update_same)
  qed
  show ?thesis using ps(1) same owned valid by simp
qed

theorem other_player_ids_are_player2_witness:
  "player_state 0 = PLAYER2 \<and> player_state (- 3) = PLAYER2 \<and> player_state 7 = PLAYER2
   \<and> get_edge_state (snd (place_bridge (Board 3 3) (0, 0) (0, 1) 7)) (0, 0) (0, 1) = PLAYER2
   \<and> normalize_edge (0, 0) (0, 1) \<in> get_player_edges (snd (place_bridge (Board 3 3) (0, 0) (0, 1) 7)) 2"
proof -
  have v: "is_valid_move (Board 3 3) (0, 0) (0, 1)" by code_simp
  have n0: "(0::int) \<noteq> 1" and n3: "(- 3::int) \<noteq> 1" and n7: "(7::int) \<noteq> 1" by simp_all
  from other_player_ids_are_player2 [OF n0, of "Board 3 3" "(0, 0)" "(0, 1)"]
    other_player_ids_are_player2 [OF n3, of "Board 3 3" "(0, 0)" "(0, 1)"]
    other_player_ids_are_player2 [OF n7, of "Board 3 3" "(0, 0)" "(0, 1)"] v
  show ?thesis by blast
qed


section \<open>Constructing the grid\<close>

lemma normalize_right: "normalize_edge (r, c) (r, c + 1) = ((r, c), (r, c + 1))"
  by (simp add: normalize_edge_def node_less_def)

lemma normalize_down: "normalize_edge (r, c) (r + 1, c) = ((r, c), (r + 1, c))"
  by (simp add: normalize_edge_def node_less_def)

lemma keys_init_cell:
  "fst ` set (init_cell R C row col es) =
     fst ` set es
     \<union> (if col < C - 1 then {((row, col), (row, col + 1))} else {})
     \<union> (if row < R - 1 then {((row, col), (row + 1, col))} else {})"
  by (auto simp: init_cell_def Let_def dom_update normalize_right normalize_down)

lemma keys_init_row:
  "fst ` set (fold (init_cell R C row) cs es) =
     fst ` set es
     \<union> {((row, c), (row, c + 1)) | c. c \<in> set cs \<and> c < C - 1}
     \<union> {((row, c), (row + 1, c)) | c. c \<in> set cs \<and> row < R - 1}"
proof (induction cs arbitrary: es)
  case Nil
  show ?case by simp
next
  case (Cons c cs)
  show ?case
    unfolding fold_simps Cons.IH keys_init_cell by auto
qed

lemma keys_init_rows:
  "fst ` set (fold (\<lambda>row es. fold (init_cell R C row) cs es) rs es) =
     fst ` set es
     \<union> {((r, c), (r, c + 1)) | r c. r \<in> set rs \<and> c \<in> set cs \<and> c < C - 1}
     \<union> {((r, c), (r + 1, c)) | r c. r \<in> set rs \<and> c \<in> set cs \<and> r < R - 1}"
proof (induction rs arbitrary: es)
  case Nil
  show ?case by simp
next
  case (Cons r rs)
  show ?case
    unfolding fold_simps Cons.IH keys_init_row by auto
qed

lemma keys_initialize_edges: "fst ` set (initialize_edges R C) = adjacent_pairs R C"
  unfolding initialize_edges_def keys_init_rows range_py_def
  by (auto simp: adjacent_pairs_def horizontal_pairs_def vertical_pairs_def image_iff)


lemma distinct_init_cell:
  "distinct (map fst es) \<Longrightarrow> distinct (map fst (init_cell R C row col es))"
  by (simp add: init_cell_def Let_def distinct_update)

lemma distinct_init_row:
  "distinct (map fst es) \<Longrightarrow> distinct (map fst (fold (init_cell R C row) cs es))"
  by (induction cs arbitrary: es) (simp_all add: distinct_init_cell)

lemma distinct_init_rows:
  "distinct (map fst es) \<Longrightarrow>
   distinct (map fst (fold (\<lambda>row es. fold (init_cell R C row) cs es) rs es))"
  by (induction rs arbitrary: es) (simp_all add: distinct_init_row)

lemma distinct_initialize_edges: "distinct (map fst (initialize_edges R C))"
  unfolding initialize_edges_def by (rule distinct_init_rows) simp

lemma update_all_values:
  "\<forall>x \<in> set al. snd x = v \<Longrightarrow> \<forall>x \<in> set (AList.update k v al). snd x = v"
  by (induction al) auto

lemma empty_init_cell:
  assumes "\<forall>x \<in> set es. snd x = EMPTY"
  shows "\<forall>x \<in> set (init_cell R C row col es). snd x = EMPTY"
proof -
  let ?es1 = "if col < C - 1
              then AList.update (normalize_edge (row, col) (row, col + 1)) EMPTY es else es"
  have 1: "\<forall>x \<in> set ?es1. snd x = EMPTY"
    using assms update_all_values [OF assms] by simp
  have "\<forall>x \<in> set (if row < R - 1
          then AList.update (normalize_edge (row, col) (row + 1, col)) EMPTY ?es1 else ?es1).
            snd x = EMPTY"
    using 1 update_all_values [OF 1] by simp
  then show ?thesis by (simp add: init_cell_def Let_def)
qed

lemma empty_init_row:
  "\<forall>x \<in> set es. snd x = EMPTY \<Longrightarrow>
   \<forall>x \<in> set (fold (init_cell R C row) cs es). snd x = EMPTY"
proof (induction cs arbitrary: es)
  case Nil
  then show ?case by simp
next
  case (Cons c cs)
  have "\<forall>x \<in> set (init_cell R C row c es). snd x = EMPTY"
    using Cons.prems by (rule empty_init_cell)
  from Cons.IH [OF this] show ?case by simp
qed

lemma empty_init_rows:
  "\<forall>x \<in> set es. snd x = EMPTY \<Longrightarrow>
   \<forall>x \<in> set (fold (\<lambda>row es. fold (init_cell R C row) cs es) rs es). snd x = EMPTY"
proof (induction rs arbitrary: es)
  case Nil
  then show ?case by simp
next
  case (Cons r rs)
  have "\<forall>x \<in> set (fold (init_cell R C r) cs es). snd x = EMPTY"
    using Cons.prems by (rule empty_init_row)
  from Cons.IH [OF this] show ?case by simp
qed

lemma empty_initialize_edges: "\<forall>x \<in> set (initialize_edges R C). snd x = EMPTY"
  unfolding initialize_edges_def by (rule empty_init_rows) simp

lemma card_horizontal_pairs:
  "1 \<le> R \<Longrightarrow> 1 \<le> C \<Longrightarrow> int (card (horizontal_pairs R C)) = R * (C - 1)"
proof -
  assume "1 \<le> R" "1 \<le> C"
  have "inj_on (\<lambda>(r, c). ((r, c), (r, c + 1))) ({0..<R} \<times> {0..<C - 1})"
    by (auto simp: inj_on_def)
  then have "card (horizontal_pairs R C) = card ({0..<R} \<times> {0..<C - 1})"
    unfolding horizontal_pairs_def by (rule card_image)
  also have "\<dots> = nat R * nat (C - 1)" by (simp add: card_cartesian_product)
  finally show ?thesis using \<open>1 \<le> R\<close> \<open>1 \<le> C\<close> by simp
qed

lemma card_vertical_pairs:
  "1 \<le> R \<Longrightarrow> 1 \<le> C \<Longrightarrow> int (card (vertical_pairs R C)) = C * (R - 1)"
proof -
  assume "1 \<le> R" "1 \<le> C"
  have "inj_on (\<lambda>(r, c). ((r, c), (r + 1, c))) ({0..<R - 1} \<times> {0..<C})"
    by (auto simp: inj_on_def)
  then have "card (vertical_pairs R C) = card ({0..<R - 1} \<times> {0..<C})"
    unfolding vertical_pairs_def by (rule card_image)
  also have "\<dots> = nat (R - 1) * nat C" by (simp add: card_cartesian_product)
  finally show ?thesis using \<open>1 \<le> R\<close> \<open>1 \<le> C\<close> by (simp add: mult.commute)
qed

lemma card_adjacent_pairs:
  assumes "1 \<le> R" "1 \<le> C"
  shows "int (card (adjacent_pairs R C)) = R * (C - 1) + C * (R - 1)"
proof -
  have fin: "finite (horizontal_pairs R C)" "finite (vertical_pairs R C)"
    by (simp_all add: horizontal_pairs_def vertical_pairs_def)
  have disj: "horizontal_pairs R C \<inter> vertical_pairs R C = {}"
    by (auto simp: horizontal_pairs_def vertical_pairs_def)
  have "card (adjacent_pairs R C) = card (horizontal_pairs R C) + card (vertical_pairs R C)"
    unfolding adjacent_pairs_def by (rule card_Un_disjoint [OF fin disj])
  then show ?thesis
    using card_horizontal_pairs [OF assms] card_vertical_pairs [OF assms] by simp
qed

lemma length_initialize_edges: "length (initialize_edges R C) = card (adjacent_pairs R C)"
proof -
  have "length (initialize_edges R C) = length (map fst (initialize_edges R C))" by simp
  also have "\<dots> = card (set (map fst (initialize_edges R C)))"
    by (rule distinct_card [symmetric, OF distinct_initialize_edges])
  also have "\<dots> = card (adjacent_pairs R C)"
    using keys_initialize_edges [of R C] by simp
  finally show ?thesis .
qed

text \<open>
  Claim C7.  For \<open>R, C \<ge> 3\<close> the dictionary built by \<open>Board(R, C)\<close> has exactly
  \<open>R * (C - 1) + C * (R - 1)\<close> entries, its keys are pairwise different and are exactly
  the horizontal and the vertical pairs of adjacent nodes, and every state is \<open>EMPTY\<close>.
\<close>

theorem board_edge_count:
  assumes "3 \<le> R" "3 \<le> C"
  shows "int (length (edges (Board R C))) = R * (C - 1) + C * (R - 1)
       \<and> distinct (map fst (edges (Board R C)))
       \<and> fst ` set (edges (Board R C)) = adjacent_pairs R C
       \<and> (\<forall>x \<in> set (edges (Board R C)). snd x = EMPTY)"
proof -
  from assms have "1 \<le> R" "1 \<le> C" by simp_all
  then have "int (length (initialize_edges R C)) = R * (C - 1) + C * (R - 1)"
    by (simp add: length_initialize_edges card_adjacent_pairs)
  then show ?thesis
    using distinct_initialize_edges [of R C] keys_initialize_edges [of R C]
      empty_initialize_edges [of R C]
    by (simp add: Board_def)
qed

theorem board_edge_count_witness:
  "(3::int) \<le> 3 \<and> (3::int) \<le> 4
   \<and> int (length (edges (Board 3 4))) = 17
   \<and> length (edges (Board 3 4)) = length (filter (\<lambda>x. snd x = EMPTY) (edges (Board 3 4)))"
proof -
  have h: "(3::int) \<le> 3" "(3::int) \<le> 4" by simp_all
  have e: "length (edges (Board 3 4)) = length (filter (\<lambda>x. snd x = EMPTY) (edges (Board 3 4)))"
    by code_simp
  from board_edge_count [OF h] have "int (length (edges (Board 3 4))) = 17" by simp
  with e show ?thesis by simp
qed


section \<open>The engine invariant\<close>

lemma board_inv_new: "board_inv (Board R C) []"
  using distinct_initialize_edges [of R C] keys_initialize_edges [of R C]
    empty_initialize_edges [of R C]
  by (auto simp: board_inv_def Board_def dest!: map_of_SomeD)

lemma board_inv_place:
  assumes inv: "board_inv b h" and v: "is_valid_move b n1 n2"
  shows "board_inv (b\<lparr>edges := AList.update (normalize_edge n1 n2) (player_state p) (edges b)\<rparr>)
           (h @ [(n1, n2, p)])"
proof -
  let ?e = "normalize_edge n1 n2"
  let ?b' = "b\<lparr>edges := AList.update ?e (player_state p) (edges b)\<rparr>"
  from v have m: "map_of (edges b) ?e = Some EMPTY" by (simp add: is_valid_move_def)
  then have key: "?e \<in> fst ` set (edges b)"
    by (metis map_of_eq_None_iff option.distinct(1))
  have fresh: "?e \<notin> history_edge ` set h"
  proof
    assume "?e \<in> history_edge ` set h"
    then obtain m' where "m' \<in> set h" "history_edge m' = ?e" by auto
    with inv have "map_of (edges b) ?e = Some (player_state (history_player m'))"
      by (auto simp: board_inv_def)
    with m show False by (simp add: player_state_def split: if_splits)
  qed
  have 1: "distinct (map fst (edges ?b'))"
    using inv by (simp add: board_inv_def distinct_update)
  have 2: "fst ` set (edges ?b') = adjacent_pairs (rows ?b') (cols ?b')"
    using inv key by (auto simp: board_inv_def dom_update)
  have 3: "distinct (map history_edge (h @ [(n1, n2, p)]))"
    using inv fresh by (simp add: board_inv_def history_edge_def)
  have 4: "\<forall>m \<in> set (h @ [(n1, n2, p)]).
             map_of (edges ?b') (history_edge m) = Some (player_state (history_player m))"
  proof
    fix m assume "m \<in> set (h @ [(n1, n2, p)])"
    then consider "m = (n1, n2, p)" | "m \<in> set h" by auto
    then show "map_of (edges ?b') (history_edge m) = Some (player_state (history_player m))"
    proof cases
      case 1
      then show ?thesis
        by (simp add: update_conv' history_edge_def history_player_def)
    next
      case 2
      with fresh have "history_edge m \<noteq> ?e" by (metis imageI)
      moreover from inv 2
      have "map_of (edges b) (history_edge m) = Some (player_state (history_player m))"
        by (simp add: board_inv_def)
      ultimately show ?thesis by (simp add: update_conv')
    qed
  qed
  have 5: "\<forall>e s. map_of (edges ?b') e = Some s \<longrightarrow> s \<noteq> EMPTY
             \<longrightarrow> e \<in> history_edge ` set (h @ [(n1, n2, p)])"
  proof (intro allI impI)
    fix e s assume es: "map_of (edges ?b') e = Some s" "s \<noteq> EMPTY"
    show "e \<in> history_edge ` set (h @ [(n1, n2, p)])"
    proof (cases "e = ?e")
      case True
      then show ?thesis by (simp add: history_edge_def)
    next
      case False
      with es have "map_of (edges b) e = Some s" by (simp add: update_conv')
      with inv es(2) have "e \<in> history_edge ` set h"
        unfolding board_inv_def by blast
      then show ?thesis by auto
    qed
  qed
  show ?thesis unfolding board_inv_def using 1 2 3 4 5 by blast
qed

lemma board_inv_undo:
  assumes inv: "board_inv b (h @ [m])"
  shows "board_inv (b\<lparr>edges := AList.update (history_edge m) EMPTY (edges b)\<rparr>) h"
proof -
  let ?e = "history_edge m"
  let ?b' = "b\<lparr>edges := AList.update ?e EMPTY (edges b)\<rparr>"
  from inv have m: "map_of (edges b) ?e = Some (player_state (history_player m))"
    by (simp add: board_inv_def)
  then have key: "?e \<in> fst ` set (edges b)"
    by (metis map_of_eq_None_iff option.distinct(1))
  from inv have fresh: "?e \<notin> history_edge ` set h"
    by (simp add: board_inv_def)
  have 1: "distinct (map fst (edges ?b'))"
    using inv by (simp add: board_inv_def distinct_update)
  have 2: "fst ` set (edges ?b') = adjacent_pairs (rows ?b') (cols ?b')"
    using inv key by (auto simp: board_inv_def dom_update)
  have 3: "distinct (map history_edge h)"
    using inv by (simp add: board_inv_def)
  have 4: "\<forall>m' \<in> set h.
             map_of (edges ?b') (history_edge m') = Some (player_state (history_player m'))"
  proof
    fix m' assume m': "m' \<in> set h"
    with fresh have "history_edge m' \<noteq> ?e" by (metis imageI)
    moreover from inv m'
    have "map_of (edges b) (history_edge m') = Some (player_state (history_player m'))"
      by (simp add: board_inv_def)
    ultimately show
      "map_of (edges ?b') (history_edge m') = Some (player_state (history_player m'))"
      by (simp add: update_conv')
  qed
  have 5: "\<forall>e s. map_of (edges ?b') e = Some s \<longrightarrow> s \<noteq> EMPTY
             \<longrightarrow> e \<in> history_edge ` set h"
  proof (intro allI impI)
    fix e s assume es: "map_of (edges ?b') e = Some s" "s \<noteq> EMPTY"
    then have ne: "e \<noteq> ?e" by (auto simp: update_conv')
    with es have "map_of (edges b) e = Some s" by (simp add: update_conv')
    with inv es(2) have "e \<in> history_edge ` set (h @ [m])"
      unfolding board_inv_def by blast
    with ne show "e \<in> history_edge ` set h" by auto
  qed
  show ?thesis unfolding board_inv_def using 1 2 3 4 5 by blast
qed

lemma two_players_shape:
  assumes "players_inv ps h" "length ps = 2"
  obtains a b where "ps = [a, b]" "player_id a = 1" "player_id b = 2"
proof -
  from assms(2) obtain a b where ps: "ps = [a, b]"
    by (cases ps; cases "tl ps") auto
  with assms(1) have "player_id a = 1" "player_id b = 2"
    by (simp_all add: players_inv_def)
  with ps show ?thesis by (rule that)
qed

lemma players_inv_empty: "players_inv [] []"
  by (simp add: players_inv_def)

lemma players_inv_add:
  assumes "players_inv ps []" "length ps < 2"
  shows "players_inv (ps @ [Player (int (length ps) + 1) nm col ptype]) []"
proof -
  from assms(2) consider "ps = []" | a where "ps = [a]"
    by (cases ps; cases "tl ps") auto
  then show ?thesis
    using assms(1)
    by cases (auto simp: players_inv_def Player_def moves_counted_def)
qed

lemma players_inv_move:
  assumes inv: "players_inv ps h" and len: "length ps = 2" and j: "j < length ps"
  shows "players_inv (ps[j := (ps ! j)\<lparr>moves_made := moves_made (ps ! j) + 1\<rparr>])
           (h @ [(n1, n2, player_id (ps ! j))])"
proof -
  from inv len obtain a b where ps: "ps = [a, b]" "player_id a = 1" "player_id b = 2"
    by (rule two_players_shape)
  from j len consider "j = 0" | "j = 1" by linarith
  then show ?thesis
    using inv ps
    by cases (auto simp: players_inv_def moves_counted_def history_player_def)
qed

lemma players_inv_undo:
  assumes inv: "players_inv ps (h @ [m])" and len: "length ps = 2"
  shows "players_inv (decrement_moves (history_player m) ps) h"
proof -
  from inv len obtain a b where ps: "ps = [a, b]" "player_id a = 1" "player_id b = 2"
    by (rule two_players_shape)
  from inv have "history_player m = 1 \<or> history_player m = 2"
    by (simp add: players_inv_def)
  then show ?thesis
    using inv ps
    by (auto simp: players_inv_def moves_counted_def)
qed

lemma players_inv_reset:
  assumes "players_inv ps h"
  shows "players_inv (map (\<lambda>p. p\<lparr>moves_made := 0\<rparr>) ps) []"
  using assms by (auto simp: players_inv_def moves_counted_def comp_def)

lemma engine_inv_new: "engine_inv (BridgeItGame R C)"
  by (simp add: engine_inv_def BridgeItGame_def board_inv_new players_inv_empty)

lemma engine_inv_add_player:
  assumes "engine_inv g"
  shows "engine_inv (snd (add_player g nm col ptype))"
proof (cases "length (players g) \<ge> 2")
  case True
  with assms show ?thesis by (simp add: add_player_def)
next
  case False
  then have len: "length (players g) < 2" by simp
  with assms have h: "move_history g = []" "game_state g = SETUP"
    by (simp_all add: engine_inv_def)
  from assms h have "players_inv (players g) []" by (simp add: engine_inv_def)
  from players_inv_add [OF this len, of nm col ptype] assms h len
  show ?thesis
    by (auto simp: add_player_def engine_inv_def Let_def)
qed

lemma engine_inv_start_game:
  assumes "engine_inv g"
  shows "engine_inv (snd (start_game g))"
proof (cases "length (players g) = 2")
  case True
  with assms show ?thesis by (simp add: start_game_def engine_inv_def)
next
  case False
  with assms show ?thesis by (simp add: start_game_def)
qed

lemma engine_inv_reset_game:
  assumes "engine_inv g"
  shows "engine_inv (reset_game g)"
proof -
  from assms have "players_inv (players g) (move_history g)" by (simp add: engine_inv_def)
  from players_inv_reset [OF this] show ?thesis
    by (simp add: reset_game_def engine_inv_def board_inv_new)
qed

lemma current_player_in_play:
  assumes "engine_inv g" "game_state g = PLAYING"
  shows "get_current_player g = Inr (Some (nat (current_player_index g)))"
    and "nat (current_player_index g) < length (players g)"
    and "length (players g) = 2"
proof -
  from assms show len: "length (players g) = 2" by (auto simp: engine_inv_def)
  from assms have idx: "current_player_index g = 0 \<or> current_player_index g = 1"
    by (simp add: engine_inv_def)
  with len show "nat (current_player_index g) < length (players g)" by auto
  from len have "players g \<noteq> []" by auto
  with assms(2) idx len show "get_current_player g = Inr (Some (nat (current_player_index g)))"
    by (auto simp: get_current_player_def list_position_def)
qed

text \<open>The two engines that a successful \<open>make_move\<close> can leave behind.\<close>

lemma make_move_cases:
  assumes "engine_inv g"
  obtains
    (rejected) "make_move g n1 n2 = (Inr False, g)"
  | (placed) j where
      "game_state g = PLAYING" "j = nat (current_player_index g)" "j < length (players g)"
      "is_valid_move (board g) n1 n2"
      "make_move g n1 n2 =
         (Inr True,
          (if has_winning_path (snd (place_bridge (board g) n1 n2 (player_id (players g ! j))))
                (player_id (players g ! j))
           then g\<lparr> board := snd (place_bridge (board g) n1 n2 (player_id (players g ! j))),
                   move_history := move_history g @ [(n1, n2, player_id (players g ! j))],
                   players := (players g)[j := (players g ! j)\<lparr>moves_made := moves_made (players g ! j) + 1\<rparr>],
                   winner := Some j, game_state := FINISHED \<rparr>
           else g\<lparr> board := snd (place_bridge (board g) n1 n2 (player_id (players g ! j))),
                   move_history := move_history g @ [(n1, n2, player_id (players g ! j))],
                   players := (players g)[j := (players g ! j)\<lparr>moves_made := moves_made (players g ! j) + 1\<rparr>],
                   current_player_index := 1 - current_player_index g \<rparr>))"
proof (cases "game_state g = PLAYING")
  case False
  then have "make_move g n1 n2 = (Inr False, g)" by (simp add: make_move_def)
  then show ?thesis by (rule rejected)
next
  case True
  note cp = current_player_in_play [OF assms True]
  let ?j = "nat (current_player_index g)"
  show ?thesis
  proof (cases "is_valid_move (board g) n1 n2")
    case False
    with True cp(1) have "make_move g n1 n2 = (Inr False, g)"
      by (simp add: make_move_def place_bridge_def Let_def)
    then show ?thesis by (rule rejected)
  next
    case v: True
    show ?thesis
    proof (rule placed [of ?j])
      show "game_state g = PLAYING" by fact
      show "?j = nat (current_player_index g)" by simp
      show "?j < length (players g)" by (rule cp(2))
      show "is_valid_move (board g) n1 n2" by fact
      show "make_move g n1 n2 =
         (Inr True,
          (if has_winning_path (snd (place_bridge (board g) n1 n2 (player_id (players g ! ?j))))
                (player_id (players g ! ?j))
           then g\<lparr> board := snd (place_bridge (board g) n1 n2 (player_id (players g ! ?j))),
                   move_history := move_history g @ [(n1, n2, player_id (players g ! ?j))],
                   players := (players g)[?j := (players g ! ?j)\<lparr>moves_made := moves_made (players g ! ?j) + 1\<rparr>],
                   winner := Some ?j, game_state := FINISHED \<rparr>
           else g\<lparr> board := snd (place_bridge (board g) n1 n2 (player_id (players g ! ?j))),
                   move_history := move_history g @ [(n1, n2, player_id (players g ! ?j))],
                   players := (players g)[?j := (players g ! ?j)\<lparr>moves_made := moves_made (players g ! ?j) + 1\<rparr>],
                   current_player_index := 1 - current_player_index g \<rparr>))"
        using True cp(1) v
        by (simp add: make_move_def place_bridge_def Let_def)
    qed
  qed
qed

lemma place_bridge_valid:
  "is_valid_move b n1 n2 \<Longrightarrow>
   snd (place_bridge b n1 n2 p) = b\<lparr>edges := AList.update (normalize_edge n1 n2) (player_state p) (edges b)\<rparr>"
  by (simp add: place_bridge_def)

lemma engine_inv_make_move:
  assumes inv: "engine_inv g"
  shows "engine_inv (snd (make_move g n1 n2))"
  using inv
proof (cases rule: make_move_cases [where ?n1.0 = n1 and ?n2.0 = n2])
  case rejected
  with inv show ?thesis by simp
next
  case (placed j)
  let ?pid = "player_id (players g ! j)"
  let ?h = "move_history g @ [(n1, n2, ?pid)]"
  let ?ps = "(players g)[j := (players g ! j)\<lparr>moves_made := moves_made (players g ! j) + 1\<rparr>]"
  from inv placed(1) have len: "length (players g) = 2" by (rule current_player_in_play(3))
  from inv have "board_inv (board g) (move_history g)" by (simp add: engine_inv_def)
  from board_inv_place [OF this placed(4), of ?pid]
  have b: "board_inv (snd (place_bridge (board g) n1 n2 ?pid)) ?h"
    by (simp add: place_bridge_valid [OF placed(4)])
  from inv have "players_inv (players g) (move_history g)" by (simp add: engine_inv_def)
  from players_inv_move [OF this len placed(3), of n1 n2]
  have p: "players_inv ?ps ?h" .
  from inv have idx: "current_player_index g = 0 \<or> current_player_index g = 1"
    by (simp add: engine_inv_def)
  show ?thesis
    unfolding placed(5) using b p idx len
    by (auto simp: engine_inv_def)
qed

lemma undo_last_move_cases:
  assumes "engine_inv g"
  obtains
    (refused) "move_history g = [] \<or> game_state g = FINISHED"
       "undo_last_move g = (Inr False, g)"
  | (undone) h m where
      "move_history g = h @ [m]" "game_state g \<noteq> FINISHED" "length (players g) = 2"
      "undo_last_move g =
         (Inr True,
          g\<lparr> move_history := h,
             board := (board g)\<lparr>edges := AList.update (history_edge m) EMPTY (edges (board g))\<rparr>,
             players := decrement_moves (history_player m) (players g),
             current_player_index := 1 - current_player_index g \<rparr>)"
proof (cases "move_history g = [] \<or> game_state g = FINISHED")
  case True
  then have "undo_last_move g = (Inr False, g)" by (simp add: undo_last_move_def)
  with True show ?thesis by (rule refused)
next
  case False
  then have ne: "move_history g \<noteq> []" and nf: "game_state g \<noteq> FINISHED" by simp_all
  define h where "h = butlast (move_history g)"
  define m where "m = last (move_history g)"
  from ne have hm: "move_history g = h @ [m]" by (simp add: h_def m_def)
  from assms ne have len: "length (players g) = 2" by (auto simp: engine_inv_def)
  from assms hm have "map_of (edges (board g)) (history_edge m) = Some (player_state (history_player m))"
    by (simp add: engine_inv_def board_inv_def)
  with ne nf hm have "undo_last_move g =
         (Inr True,
          g\<lparr> move_history := h,
             board := (board g)\<lparr>edges := AList.update (history_edge m) EMPTY (edges (board g))\<rparr>,
             players := decrement_moves (history_player m) (players g),
             current_player_index := 1 - current_player_index g \<rparr>)"
    by (cases m) (simp add: undo_last_move_def Let_def history_edge_def history_player_def)
  with hm nf len show ?thesis by (rule undone)
qed

lemma length_decrement_moves: "length (decrement_moves pid ps) = length ps"
  by (induction ps) auto

lemma engine_inv_undo_last_move:
  assumes inv: "engine_inv g"
  shows "engine_inv (snd (undo_last_move g))"
  using inv
proof (cases rule: undo_last_move_cases)
  case refused
  with inv show ?thesis by simp
next
  case (undone h m)
  from inv undone(1) have "board_inv (board g) (h @ [m])" by (simp add: engine_inv_def)
  then have b: "board_inv ((board g)\<lparr>edges := AList.update (history_edge m) EMPTY (edges (board g))\<rparr>) h"
    by (rule board_inv_undo)
  from inv undone(1) have "players_inv (players g) (h @ [m])" by (simp add: engine_inv_def)
  then have p: "players_inv (decrement_moves (history_player m) (players g)) h"
    using undone(3) by (rule players_inv_undo)
  have len: "length (decrement_moves (history_player m) (players g)) = 2"
    using undone(3) by (simp add: length_decrement_moves)
  from inv have idx: "current_player_index g = 0 \<or> current_player_index g = 1"
    by (simp add: engine_inv_def)
  show ?thesis
    unfolding undone(4) using b p idx len
    by (auto simp: engine_inv_def)
qed

lemma reachable_engine_inv: "reachable g \<Longrightarrow> engine_inv g"
proof (induction rule: reachable.induct)
  case (reach_new board_rows board_cols)
  show ?case by (rule engine_inv_new)
next
  case (reach_add_player g nm col ptype)
  then show ?case by (simp add: engine_inv_add_player)
next
  case (reach_start_game g)
  then show ?case by (simp add: engine_inv_start_game)
next
  case (reach_make_move g node1 node2)
  then show ?case by (simp add: engine_inv_make_move)
next
  case (reach_undo_last_move g)
  then show ?case by (simp add: engine_inv_undo_last_move)
next
  case (reach_reset_game g)
  then show ?case by (simp add: engine_inv_reset_game)
qed


section \<open>History, owned edges and counters\<close>

lemma owned_edges_are_history:
  assumes "engine_inv g"
  shows "get_player_edges (board g) 1 \<union> get_player_edges (board g) 2
           = history_edge ` set (move_history g)"
proof (intro set_eqI iffI)
  fix e assume "e \<in> get_player_edges (board g) 1 \<union> get_player_edges (board g) 2"
  then obtain s where s: "(e, s) \<in> set (edges (board g))" "s \<noteq> EMPTY"
    by (auto simp: get_player_edges_def player_state_def)
  from assms have "distinct (map fst (edges (board g)))"
    by (simp add: engine_inv_def board_inv_def)
  with s(1) have "map_of (edges (board g)) e = Some s" by simp
  with assms s(2) show "e \<in> history_edge ` set (move_history g)"
    unfolding engine_inv_def board_inv_def by blast
next
  fix e assume "e \<in> history_edge ` set (move_history g)"
  then obtain m where m: "m \<in> set (move_history g)" "e = history_edge m" by auto
  with assms have "map_of (edges (board g)) e = Some (player_state (history_player m))"
    by (simp add: engine_inv_def board_inv_def)
  then have "(e, player_state (history_player m)) \<in> set (edges (board g))"
    by (rule map_of_SomeD)
  moreover from assms m(1) have "history_player m = 1 \<or> history_player m = 2"
    by (simp add: engine_inv_def players_inv_def)
  ultimately show "e \<in> get_player_edges (board g) 1 \<union> get_player_edges (board g) 2"
    by (force simp: get_player_edges_def)
qed

lemma count_two_players:
  "\<forall>m \<in> set h. history_player m = 1 \<or> history_player m = 2 \<Longrightarrow>
   length (filter (\<lambda>m. history_player m = 1) h) + length (filter (\<lambda>m. history_player m = 2) h)
     = length h"
  by (induction h) auto

lemma sum_moves_zero:
  "\<forall>q \<in> set ps. moves_made q = 0 \<Longrightarrow> sum_list (map moves_made ps) = 0"
  by (induction ps) auto

lemma engine_inv_history_matches:
  assumes "engine_inv g"
  shows "history_matches g"
proof -
  from assms have d: "distinct (map history_edge (move_history g))"
    by (simp add: engine_inv_def board_inv_def)
  have "owned_edge_count (board g) = card (set (map history_edge (move_history g)))"
    by (simp add: owned_edge_count_def owned_edges_are_history [OF assms])
  also have "\<dots> = length (move_history g)"
    using distinct_card [OF d] by simp
  finally have 1: "length (move_history g) = owned_edge_count (board g)" by simp
  from assms have p: "players_inv (players g) (move_history g)" by (simp add: engine_inv_def)
  have 2: "int (length (move_history g)) = sum_list (map moves_made (players g))"
  proof (cases "length (players g) = 2")
    case True
    with p obtain a b where ps: "players g = [a, b]" "player_id a = 1" "player_id b = 2"
      by (rule two_players_shape)
    from p have "\<forall>m \<in> set (move_history g). history_player m = 1 \<or> history_player m = 2"
      by (simp add: players_inv_def)
    from count_two_players [OF this] p ps show ?thesis
      by (simp add: players_inv_def moves_counted_def)
  next
    case False
    with assms have "move_history g = []" by (simp add: engine_inv_def)
    with p have "\<forall>q \<in> set (players g). moves_made q = 0"
      by (simp add: players_inv_def moves_counted_def)
    then have "sum_list (map moves_made (players g)) = 0"
      by (rule sum_moves_zero)
    with \<open>move_history g = []\<close> show ?thesis by simp
  qed
  from 1 2 show ?thesis by (simp add: history_matches_def)
qed

lemma reachable_moves: "reachable g \<Longrightarrow> reachable (moves g ms)"
proof (induction ms arbitrary: g)
  case Nil
  then show ?case by (simp add: moves_def)
next
  case (Cons m ms)
  obtain a b where m: "m = (a, b)" by (cases m)
  from Cons.prems have "reachable (snd (make_move g a b))" by (rule reach_make_move)
  from Cons.IH [OF this] show ?case by (simp add: moves_def m)
qed

lemma reachable_two_player_game: "reachable two_player_game"
  unfolding two_player_game_def by (intro reachable.intros)

lemma reachable_started_game: "reachable started_game"
  unfolding started_game_def by (intro reachable.intros reachable_two_player_game)

lemma reachable_finished_game: "reachable finished_game"
  unfolding finished_game_def by (intro reachable_moves reachable_started_game)


section \<open>History length\<close>

text \<open>
  Claim C9.  In every reachable engine the history is as long as the number of edges owned
  by either player, and as long as the sum of the players' move counters; the same holds
  of the engine after \<open>make_move\<close>, after \<open>undo_last_move\<close> and after \<open>reset_game\<close>.
\<close>

theorem history_length_invariant:
  assumes "reachable g"
  shows "history_matches g
       \<and> history_matches (snd (make_move g node1 node2))
       \<and> history_matches (snd (undo_last_move g))
       \<and> history_matches (reset_game g)"
proof -
  from assms have inv: "engine_inv g" by (rule reachable_engine_inv)
  show ?thesis
    using inv engine_inv_make_move [OF inv, of node1 node2]
      engine_inv_undo_last_move [OF inv] engine_inv_reset_game [OF inv]
    by (simp add: engine_inv_history_matches)
qed

theorem history_length_invariant_witness:
  "reachable (moves started_game [((0, 0), (1, 0)), ((0, 1), (0, 2))])
   \<and> history_matches (moves started_game [((0, 0), (1, 0)), ((0, 1), (0, 2))])
   \<and> length (move_history (moves started_game [((0, 0), (1, 0)), ((0, 1), (0, 2))])) = 2
   \<and> history_matches (snd (undo_last_move (moves started_game [((0, 0), (1, 0)), ((0, 1), (0, 2))])))"
proof -
  let ?g = "moves started_game [((0, 0), (1, 0)), ((0, 1), (0, 2))]"
  have r: "reachable ?g" by (intro reachable_moves reachable_started_game)
  have l: "length (move_history ?g) = 2" by code_simp
  from history_length_invariant [OF r] r l show ?thesis by simp
qed


section \<open>Undo after a move\<close>

text \<open>
  A successful move in a reachable engine is non-winning, that is the check for a winning
  path of the mover fails, exactly when the engine is still in phase \<open>PLAYING\<close>
  afterwards.
\<close>

lemma non_winning_iff_still_playing:
  assumes r: "reachable g" and mv: "make_move g n1 n2 = (Inr True, g')"
  shows "game_state g' = PLAYING
           \<longleftrightarrow> \<not> has_winning_path (board g')
                     (player_id (players g ! nat (current_player_index g)))"
proof -
  from r have inv: "engine_inv g" by (rule reachable_engine_inv)
  from inv show ?thesis
  proof (cases rule: make_move_cases [where ?n1.0 = n1 and ?n2.0 = n2])
    case rejected
    with mv show ?thesis by simp
  next
    case (placed j)
    with mv show ?thesis by (auto split: if_splits)
  qed
qed

text \<open>
  Claim C3.  In a reachable engine in phase \<open>PLAYING\<close>, a successful move that does not
  win (the engine is still \<open>PLAYING\<close> afterwards) followed by \<open>undo_last_move\<close> gives
  back the engine before the move: the same board (the placed edge is \<open>EMPTY\<close> again and
  every entry is as before), the same current player index, the same players with the same
  counters, and the same history.
\<close>

theorem undo_inverts_move:
  assumes r: "reachable g" and pl: "game_state g = PLAYING"
    and mv: "make_move g n1 n2 = (Inr True, g')" and nw: "game_state g' = PLAYING"
  shows "undo_last_move g' = (Inr True, g)
       \<and> board (snd (undo_last_move g')) = board g
       \<and> current_player_index (snd (undo_last_move g')) = current_player_index g
       \<and> players (snd (undo_last_move g')) = players g
       \<and> move_history (snd (undo_last_move g')) = move_history g
       \<and> get_edge_state (board g) n1 n2 = EMPTY
       \<and> get_edge_state (board g') n1 n2 \<noteq> EMPTY"
proof -
  from r have inv: "engine_inv g" by (rule reachable_engine_inv)
  from inv show ?thesis
  proof (cases rule: make_move_cases [where ?n1.0 = n1 and ?n2.0 = n2])
    case rejected
    with mv show ?thesis by simp
  next
    case (placed j)
    let ?pid = "player_id (players g ! j)"
    let ?e = "normalize_edge n1 n2"
    let ?ps = "(players g)[j := (players g ! j)\<lparr>moves_made := moves_made (players g ! j) + 1\<rparr>]"
    from placed(4) have empty: "map_of (edges (board g)) ?e = Some EMPTY"
      by (simp add: is_valid_move_def)
    have g': "g' = g\<lparr> board := (board g)\<lparr>edges := AList.update ?e (player_state ?pid) (edges (board g))\<rparr>,
                   move_history := move_history g @ [(n1, n2, ?pid)],
                   players := ?ps,
                   current_player_index := 1 - current_player_index g \<rparr>"
      using mv nw unfolding placed(5) place_bridge_valid [OF placed(4)]
      by (auto split: if_splits)
    from inv pl have len: "length (players g) = 2" by (rule current_player_in_play(3))
    from inv have "players_inv (players g) (move_history g)" by (simp add: engine_inv_def)
    then obtain a b where ps: "players g = [a, b]" "player_id a = 1" "player_id b = 2"
      using len by (rule two_players_shape)
    from placed(3) len consider "j = 0" | "j = 1" by linarith
    then have dec: "decrement_moves ?pid ?ps = players g"
      by cases (simp_all add: ps)
    have undo: "undo_last_move g' = (Inr True, g)"
      unfolding g'
      by (simp add: undo_last_move_def Let_def pl update_conv' update_triv [OF empty] dec)
    have st: "get_edge_state (board g') n1 n2 = player_state ?pid"
      unfolding g' by (simp add: get_edge_state_update_same)
    from undo empty st show ?thesis
      by (simp add: get_edge_state_def player_state_not_empty)
  qed
qed

theorem undo_inverts_move_witness:
  "reachable started_game \<and> game_state started_game = PLAYING
   \<and> fst (make_move started_game (0, 0) (0, 1)) = Inr True
   \<and> game_state (snd (make_move started_game (0, 0) (0, 1))) = PLAYING
   \<and> undo_last_move (snd (make_move started_game (0, 0) (0, 1))) = (Inr True, started_game)"
proof -
  have pl: "game_state started_game = PLAYING" by code_simp
  have ok: "fst (make_move started_game (0, 0) (0, 1)) = Inr True" by code_simp
  then have mv: "make_move started_game (0, 0) (0, 1)
                   = (Inr True, snd (make_move started_game (0, 0) (0, 1)))"
    by (simp add: prod_eq_iff)
  have nw: "game_state (snd (make_move started_game (0, 0) (0, 1))) = PLAYING" by code_simp
  from undo_inverts_move [OF reachable_started_game pl mv nw] pl ok nw reachable_started_game
  show ?thesis by simp
qed


section \<open>Restarting an engine that is not in setup\<close>

text \<open>
  \<open>make_move\<close> and \<open>undo_last_move\<close> check the phase, and leave a finished engine as
  it is.
\<close>

lemma finished_blocks_move_and_undo:
  "game_state g = FINISHED \<Longrightarrow>
   make_move g node1 node2 = (Inr False, g) \<and> undo_last_move g = (Inr False, g)"
  by (simp add: make_move_def undo_last_move_def)

text \<open>
  Claim C4.  \<open>start_game\<close> does not check the phase.  On the finished 3 by 3 game that
  player 1 has won it returns true and puts the engine back into \<open>PLAYING\<close>, with the
  winner, the board and the history still those of the finished game; the winning move
  can then be undone.
\<close>

theorem start_game_reopens_finished_game:
  "reachable finished_game
   \<and> game_state finished_game = FINISHED
   \<and> winner finished_game = Some 0
   \<and> start_game finished_game
        = (True, finished_game\<lparr>game_state := PLAYING, current_player_index := 0\<rparr>)
   \<and> game_state (snd (start_game finished_game)) = PLAYING
   \<and> winner (snd (start_game finished_game)) = Some 0
   \<and> fst (undo_last_move (snd (start_game finished_game))) = Inr True
   \<and> length (move_history (snd (undo_last_move (snd (start_game finished_game))))) = 2"
proof -
  have "game_state finished_game = FINISHED" "winner finished_game = Some 0"
    "start_game finished_game
       = (True, finished_game\<lparr>game_state := PLAYING, current_player_index := 0\<rparr>)"
    "game_state (snd (start_game finished_game)) = PLAYING"
    "winner (snd (start_game finished_game)) = Some 0"
    "fst (undo_last_move (snd (start_game finished_game))) = Inr True"
    "length (move_history (snd (undo_last_move (snd (start_game finished_game))))) = 2"
    by code_simp+
  with reachable_finished_game show ?thesis by simp
qed

text \<open>
  In a reachable engine a non-winning successful move flips the index of the current
  player, so the turn passes to the other player.
\<close>

lemma move_flips_turn:
  assumes "reachable g" "make_move g node1 node2 = (Inr True, g')" "game_state g' = PLAYING"
  shows "current_player_index g' = 1 - current_player_index g"
proof -
  from assms(1) have inv: "engine_inv g" by (rule reachable_engine_inv)
  from inv show ?thesis
  proof (cases rule: make_move_cases [where ?n1.0 = node1 and ?n2.0 = node2])
    case rejected
    with assms(2) show ?thesis by simp
  next
    case (placed j)
    with assms(2,3) show ?thesis by (auto split: if_splits)
  qed
qed

text \<open>
  When \<open>start_game\<close> is called in phase \<open>SETUP\<close> only, the moves of the history
  alternate, the index of the current player is the parity of their number, and a
  successful undo gives the turn to the mover of the undone move.
\<close>

lemma started_once_reachable: "started_once g \<Longrightarrow> reachable g"
  by (induction rule: started_once.induct) (auto intro: reachable.intros)

lemma turn_inv_make_move:
  assumes inv: "engine_inv g" and t: "turn_inv g"
  shows "turn_inv (snd (make_move g n1 n2))"
  using inv
proof (cases rule: make_move_cases [where ?n1.0 = n1 and ?n2.0 = n2])
  case rejected
  with t show ?thesis by simp
next
  case (placed j)
  let ?h = "move_history g"
  from inv placed(1) have len: "length (players g) = 2" by (rule current_player_in_play(3))
  from inv have "players_inv (players g) ?h" by (simp add: engine_inv_def)
  then obtain a b where ps: "players g = [a, b]" "player_id a = 1" "player_id b = 2"
    using len by (rule two_players_shape)
  from t placed(1) have idx: "current_player_index g = int (length ?h mod 2)"
    by (simp add: turn_inv_def)
  have pid: "player_id (players g ! j) = int (length ?h mod 2) + 1"
  proof (cases "length ?h mod 2 = 0")
    case True
    with idx placed(2) ps show ?thesis by simp
  next
    case False
    then have "length ?h mod 2 = 1" by presburger
    with idx placed(2) ps show ?thesis by simp
  qed
  have alt: "\<forall>k < length (?h @ [(n1, n2, player_id (players g ! j))]).
               history_player ((?h @ [(n1, n2, player_id (players g ! j))]) ! k) = int (k mod 2) + 1"
  proof (intro allI impI)
    fix k assume "k < length (?h @ [(n1, n2, player_id (players g ! j))])"
    then consider "k < length ?h" | "k = length ?h" by fastforce
    then show "history_player ((?h @ [(n1, n2, player_id (players g ! j))]) ! k) = int (k mod 2) + 1"
    proof cases
      case 1
      with t show ?thesis by (simp add: turn_inv_def nth_append)
    next
      case 2
      with pid show ?thesis by (simp add: nth_append history_player_def)
    qed
  qed
  have flip: "1 - current_player_index g = int (Suc (length ?h) mod 2)"
    unfolding idx by presburger
  show ?thesis
    unfolding placed(5) turn_inv_def using alt flip placed(1) by simp
qed

lemma turn_inv_undo_last_move:
  assumes inv: "engine_inv g" and t: "turn_inv g"
  shows "turn_inv (snd (undo_last_move g))"
  using inv
proof (cases rule: undo_last_move_cases)
  case refused
  with t show ?thesis by simp
next
  case (undone h m)
  from t undone(1) have ns: "game_state g \<noteq> SETUP" by (auto simp: turn_inv_def)
  from t undone(1,2) have idx: "current_player_index g = int (Suc (length h) mod 2)"
    by (simp add: turn_inv_def)
  have flip: "1 - current_player_index g = int (length h mod 2)"
    unfolding idx by presburger
  have alt: "\<forall>k < length h. history_player (h ! k) = int (k mod 2) + 1"
  proof (intro allI impI)
    fix k assume k: "k < length h"
    with t undone(1) have "history_player ((h @ [m]) ! k) = int (k mod 2) + 1"
      by (simp add: turn_inv_def)
    with k show "history_player (h ! k) = int (k mod 2) + 1" by (simp add: nth_append)
  qed
  show ?thesis
    unfolding undone(4) turn_inv_def using alt flip ns by simp
qed

lemma started_once_turn_inv: "started_once g \<Longrightarrow> turn_inv g"
proof (induction rule: started_once.induct)
  case (once_new board_rows board_cols)
  show ?case by (simp add: turn_inv_def BridgeItGame_def)
next
  case (once_add_player g nm col ptype)
  then show ?case by (simp add: turn_inv_def add_player_def Let_def)
next
  case (once_start_game g)
  then show ?case by (simp add: turn_inv_def start_game_def)
next
  case (once_make_move g node1 node2)
  then show ?case
    by (simp add: turn_inv_make_move reachable_engine_inv started_once_reachable)
next
  case (once_undo_last_move g)
  then show ?case
    by (simp add: turn_inv_undo_last_move reachable_engine_inv started_once_reachable)
next
  case (once_reset_game g)
  show ?case by (simp add: turn_inv_def reset_game_def)
qed

lemma undo_returns_turn_to_mover:
  assumes so: "started_once g" and un: "undo_last_move g = (Inr True, g')"
  shows "game_state g' = PLAYING
       \<and> get_current_player g' = Inr (Some (nat (current_player_index g')))
       \<and> player_id (players g' ! nat (current_player_index g'))
            = history_player (last (move_history g))"
proof -
  from so have r: "reachable g" by (rule started_once_reachable)
  then have inv: "engine_inv g" by (rule reachable_engine_inv)
  from so have t: "turn_inv g" by (rule started_once_turn_inv)
  from r have "reachable (snd (undo_last_move g))" by (rule reach_undo_last_move)
  with un have inv': "engine_inv g'" by (simp add: reachable_engine_inv)
  from inv show ?thesis
  proof (cases rule: undo_last_move_cases)
    case refused
    with un show ?thesis by simp
  next
    case (undone h m)
    from un undone(4) have g': "g' =
          g\<lparr> move_history := h,
             board := (board g)\<lparr>edges := AList.update (history_edge m) EMPTY (edges (board g))\<rparr>,
             players := decrement_moves (history_player m) (players g),
             current_player_index := 1 - current_player_index g \<rparr>"
      by simp
    from t undone(1) have ns: "game_state g \<noteq> SETUP" by (auto simp: turn_inv_def)
    with undone(2) have pl: "game_state g = PLAYING" by (cases "game_state g") simp_all
    then have pl': "game_state g' = PLAYING" by (simp add: g')
    from t undone(1,2) have idx: "current_player_index g = int (Suc (length h) mod 2)"
      by (simp add: turn_inv_def)
    have idx': "current_player_index g' = int (length h mod 2)"
      unfolding g' using idx by simp presburger
    from t undone(1)
    have "\<forall>k < length (h @ [m]). history_player ((h @ [m]) ! k) = int (k mod 2) + 1"
      by (simp add: turn_inv_def)
    from this [rule_format, of "length h"]
    have m: "history_player m = int (length h mod 2) + 1" by simp
    from inv' have "players_inv (players g') (move_history g')" by (simp add: engine_inv_def)
    moreover from inv' pl' have "length (players g') = 2" by (rule current_player_in_play(3))
    ultimately obtain a b where ps: "players g' = [a, b]" "player_id a = 1" "player_id b = 2"
      by (rule two_players_shape)
    have "player_id (players g' ! nat (current_player_index g')) = history_player m"
    proof (cases "length h mod 2 = 0")
      case True
      with idx' m ps show ?thesis by simp
    next
      case False
      then have "length h mod 2 = 1" by presburger
      with idx' m ps show ?thesis by simp
    qed
    with pl' current_player_in_play(1) [OF inv' pl'] undone(1) show ?thesis by simp
  qed
qed

text \<open>
  Claim C6.  The alternation after a move holds in every reachable engine, and the undo
  part holds as long as \<open>start_game\<close> is called in phase \<open>SETUP\<close> only (both
  above).  The undo part fails in a reachable engine when \<open>start_game\<close>, which does
  not check the phase, is called in the middle of a game:
  player 1 (position 0) moves, \<open>start_game\<close> sets the index back to 0 and keeps the
  history, and the undo of player 1's move then flips the index to 1, so that the current
  player is \<open>players[1]\<close>, player 2, and not the mover of the undone move.
\<close>

theorem undo_after_restart_gives_turn_to_other_player:
  "game_state started_game = PLAYING
   \<and> current_player_index started_game = 0
   \<and> fst (make_move started_game (0, 0) (0, 1)) = Inr True
   \<and> move_history (snd (make_move started_game (0, 0) (0, 1))) = [((0, 0), (0, 1), 1)]
   \<and> fst (start_game (snd (make_move started_game (0, 0) (0, 1))))
   \<and> fst (undo_last_move (snd (start_game (snd (make_move started_game (0, 0) (0, 1)))))) = Inr True
   \<and> game_state
        (snd (undo_last_move (snd (start_game (snd (make_move started_game (0, 0) (0, 1)))))))
        = PLAYING
   \<and> current_player_index
        (snd (undo_last_move (snd (start_game (snd (make_move started_game (0, 0) (0, 1)))))))
        = 1
   \<and> map player_id
        (players (snd (undo_last_move (snd (start_game (snd (make_move started_game (0, 0) (0, 1))))))))
        = [1, 2]"
  by code_simp


section \<open>Correctness of the path search\<close>

subsection \<open>Soundness of the search\<close>

lemma dfs_sound:
  "fst (dfs b p ends v n) \<Longrightarrow> \<exists>t \<in> set ends. (n, t) \<in> (search_step b p)\<^sup>*"
  "fst (dfs_neighbors b p ends v n ns) \<Longrightarrow>
     \<exists>m \<in> set ns. get_edge_state b n m = player_state p
        \<and> (\<exists>t \<in> set ends. (m, t) \<in> (search_step b p)\<^sup>*)"
proof (induction b p ends v n and b p ends v n ns rule: dfs_dfs_neighbors.induct)
  case (1 b player end_nodes visited node)
  show ?case
  proof (cases "node \<in> visited")
    case True
    with 1(2) show ?thesis by simp
  next
    case nv: False
    show ?thesis
    proof (cases "node \<in> set end_nodes")
      case True
      then show ?thesis by blast
    next
      case False
      with nv 1(2) have "fst (dfs_neighbors b player end_nodes (insert node visited) node
                               (get_neighbors b node))"
        by simp
      from 1(1) [OF nv False this] obtain m t where
        m: "m \<in> set (get_neighbors b node)" "get_edge_state b node m = player_state player"
        and t: "t \<in> set end_nodes" "(m, t) \<in> (search_step b player)\<^sup>*"
        by blast
      from m have "(node, m) \<in> search_step b player" by (simp add: search_step_def)
      from this t(2) have "(node, t) \<in> (search_step b player)\<^sup>*"
        by (rule converse_rtrancl_into_rtrancl)
      with t(1) show ?thesis by blast
    qed
  qed
next
  case (2 b player end_nodes visited node)
  then show ?case by simp
next
  case (3 b player end_nodes visited node neighbor rest)
  show ?case
  proof (cases "get_edge_state b node neighbor = player_state player")
    case False
    with 3(4) have "fst (dfs_neighbors b player end_nodes visited node rest)" by simp
    from 3(3) [OF False this] show ?thesis by auto
  next
    case True
    obtain found v' where r: "dfs b player end_nodes visited neighbor = (found, v')"
      by (cases "dfs b player end_nodes visited neighbor")
    show ?thesis
    proof (cases found)
      case True
      with r have "fst (dfs b player end_nodes visited neighbor)" by simp
      from 3(1) [OF \<open>get_edge_state b node neighbor = player_state player\<close> this]
      show ?thesis using \<open>get_edge_state b node neighbor = player_state player\<close> by auto
    next
      case False
      with r True 3(4) have "fst (dfs_neighbors b player end_nodes v' node rest)" by simp
      from 3(2) [OF True r [symmetric] _ this] False
      show ?thesis by auto
    qed
  qed
qed

subsection \<open>Completeness of the search\<close>

lemma explored_refl: "explored b p ends v v"
  by (simp add: explored_def)

lemma explored_trans:
  assumes "explored b p ends v v1" "explored b p ends v1 v2"
  shows "explored b p ends v v2"
  unfolding explored_def
proof (intro conjI ballI allI impI)
  from assms show "v \<subseteq> v2" by (auto simp: explored_def)
next
  fix x assume x: "x \<in> v2 - v"
  show "x \<notin> set ends"
  proof (cases "x \<in> v1")
    case True
    with x assms(1) show ?thesis by (auto simp: explored_def)
  next
    case False
    with x assms(2) show ?thesis by (auto simp: explored_def)
  qed
next
  fix x y assume x: "x \<in> v2 - v" and s: "(x, y) \<in> search_step b p"
  from assms(2) have sub: "v1 \<subseteq> v2" by (simp add: explored_def)
  show "y \<in> v2"
  proof (cases "x \<in> v1")
    case True
    with x have "x \<in> v1 - v" by simp
    with assms(1) s have "y \<in> v1" unfolding explored_def by blast
    with sub show ?thesis by blast
  next
    case False
    with x have "x \<in> v2 - v1" by simp
    with assms(2) s show ?thesis unfolding explored_def by blast
  qed
qed

lemma explored_insert:
  assumes "n \<notin> set ends" "explored b p ends (insert n v) v'"
    and "\<forall>y. (n, y) \<in> search_step b p \<longrightarrow> y \<in> v'"
  shows "explored b p ends v v'"
  unfolding explored_def
proof (intro conjI ballI allI impI)
  from assms(2) show "v \<subseteq> v'" by (auto simp: explored_def)
next
  fix x assume x: "x \<in> v' - v"
  show "x \<notin> set ends"
  proof (cases "x = n")
    case True
    with assms(1) show ?thesis by simp
  next
    case False
    with x have "x \<in> v' - insert n v" by simp
    with assms(2) show ?thesis unfolding explored_def by blast
  qed
next
  fix x y assume x: "x \<in> v' - v" and s: "(x, y) \<in> search_step b p"
  show "y \<in> v'"
  proof (cases "x = n")
    case True
    with assms(3) s show ?thesis by blast
  next
    case False
    with x have "x \<in> v' - insert n v" by simp
    with assms(2) s show ?thesis unfolding explored_def by blast
  qed
qed

lemma dfs_complete:
  "\<not> fst (dfs b p ends v n) \<Longrightarrow>
     n \<in> snd (dfs b p ends v n) \<and> explored b p ends v (snd (dfs b p ends v n))"
  "\<not> fst (dfs_neighbors b p ends v n ns) \<Longrightarrow>
     explored b p ends v (snd (dfs_neighbors b p ends v n ns))
     \<and> (\<forall>m \<in> set ns. get_edge_state b n m = player_state p
            \<longrightarrow> m \<in> snd (dfs_neighbors b p ends v n ns))"
proof (induction b p ends v n and b p ends v n ns rule: dfs_dfs_neighbors.induct)
  case (1 b player end_nodes visited node)
  show ?case
  proof (cases "node \<in> visited")
    case True
    then show ?thesis by (simp add: explored_refl)
  next
    case nv: False
    show ?thesis
    proof (cases "node \<in> set end_nodes")
      case True
      with nv 1(2) show ?thesis by simp
    next
      case False
      let ?r = "dfs_neighbors b player end_nodes (insert node visited) node (get_neighbors b node)"
      from nv False have eq: "dfs b player end_nodes visited node = ?r" by simp
      with 1(2) have nf: "\<not> fst ?r" by simp
      from 1(1) [OF nv False nf]
      have ex: "explored b player end_nodes (insert node visited) (snd ?r)"
        and nb: "\<forall>m \<in> set (get_neighbors b node).
                   get_edge_state b node m = player_state player \<longrightarrow> m \<in> snd ?r"
        by simp_all
      from ex have "node \<in> snd ?r" by (auto simp: explored_def)
      moreover have "\<forall>y. (node, y) \<in> search_step b player \<longrightarrow> y \<in> snd ?r"
        using nb by (simp add: search_step_def)
      with False ex have "explored b player end_nodes visited (snd ?r)"
        by (rule explored_insert)
      ultimately show ?thesis unfolding eq by simp
    qed
  qed
next
  case (2 b player end_nodes visited node)
  show ?case by (simp add: explored_refl)
next
  case (3 b player end_nodes visited node neighbor rest)
  show ?case
  proof (cases "get_edge_state b node neighbor = player_state player")
    case False
    then have eq: "dfs_neighbors b player end_nodes visited node (neighbor # rest)
                     = dfs_neighbors b player end_nodes visited node rest"
      by simp
    with 3(4) have "\<not> fst (dfs_neighbors b player end_nodes visited node rest)" by simp
    from 3(3) [OF False this] False show ?thesis unfolding eq by simp
  next
    case True
    obtain found v' where r: "dfs b player end_nodes visited neighbor = (found, v')"
      by (cases "dfs b player end_nodes visited neighbor")
    show ?thesis
    proof (cases found)
      case True
      with r \<open>get_edge_state b node neighbor = player_state player\<close> 3(4)
      show ?thesis by simp
    next
      case False
      let ?r = "dfs_neighbors b player end_nodes v' node rest"
      from True r False
      have eq: "dfs_neighbors b player end_nodes visited node (neighbor # rest) = ?r"
        by simp
      with 3(4) have nf: "\<not> fst ?r" by simp
      from r False have "\<not> fst (dfs b player end_nodes visited neighbor)" by simp
      from 3(1) [OF True this] r
      have in1: "neighbor \<in> v'" and ex1: "explored b player end_nodes visited v'"
        by simp_all
      from False have "found = False" by simp
      from 3(2) [OF True r [symmetric] this nf]
      have ex2: "explored b player end_nodes v' (snd ?r)"
        and nb: "\<forall>m \<in> set rest. get_edge_state b node m = player_state player \<longrightarrow> m \<in> snd ?r"
        by simp_all
      from ex1 ex2 have "explored b player end_nodes visited (snd ?r)"
        by (rule explored_trans)
      moreover from ex2 in1 have "neighbor \<in> snd ?r" by (auto simp: explored_def)
      ultimately show ?thesis unfolding eq using nb by simp
    qed
  qed
qed

subsection \<open>The search decides reachability\<close>

lemma explored_from_empty_closed:
  assumes ex: "explored b p ends {} v'" and s: "s \<in> v'"
    and path: "(s, t) \<in> (search_step b p)\<^sup>*"
  shows "t \<in> v' \<and> t \<notin> set ends"
proof -
  from path s have "t \<in> v'"
  proof (induction rule: rtrancl_induct)
    case base
    then show ?case .
  next
    case (step y z)
    then have "y \<in> v' - {}" by simp
    with ex step(2) show ?case unfolding explored_def by blast
  qed
  with ex show ?thesis by (auto simp: explored_def)
qed

lemma dfs_from_empty:
  "fst (dfs b p ends {} s) \<longleftrightarrow> (\<exists>t \<in> set ends. (s, t) \<in> (search_step b p)\<^sup>*)"
proof
  assume "fst (dfs b p ends {} s)"
  then show "\<exists>t \<in> set ends. (s, t) \<in> (search_step b p)\<^sup>*" by (rule dfs_sound(1))
next
  assume r: "\<exists>t \<in> set ends. (s, t) \<in> (search_step b p)\<^sup>*"
  show "fst (dfs b p ends {} s)"
  proof (rule ccontr)
    assume "\<not> fst (dfs b p ends {} s)"
    from dfs_complete(1) [OF this]
    have "s \<in> snd (dfs b p ends {} s)" "explored b p ends {} (snd (dfs b p ends {} s))"
      by simp_all
    from explored_from_empty_closed [OF this(2) this(1)] r show False by blast
  qed
qed

lemma has_path_between_sets_iff:
  "has_path_between_sets b starts ends p
     \<longleftrightarrow> (\<exists>s \<in> set starts. \<exists>t \<in> set ends. (s, t) \<in> (search_step b p)\<^sup>*)"
  by (induction starts) (simp_all add: dfs_from_empty del: dfs.simps)

lemma has_winning_path_search:
  "has_winning_path b p
     \<longleftrightarrow> (\<exists>s \<in> set (start_nodes b p). \<exists>t \<in> set (end_nodes b p). (s, t) \<in> (search_step b p)\<^sup>*)"
  by (simp add: has_winning_path_def has_path_between_sets_iff)


subsection \<open>Steps of the search and owned edges\<close>


lemma in_get_neighbors:
  "(r', c') \<in> set (get_neighbors b (r, c)) \<longleftrightarrow>
     0 \<le> r' \<and> r' < rows b \<and> 0 \<le> c' \<and> c' < cols b
     \<and> ((r' = r - 1 \<and> c' = c) \<or> (r' = r + 1 \<and> c' = c)
        \<or> (r' = r \<and> c' = c - 1) \<or> (r' = r \<and> c' = c + 1))"
  unfolding get_neighbors_def by (simp add: image_iff) linarith




lemma set_start_nodes: "set (start_nodes b p) = start_set b p"
  by (auto simp: start_nodes_def start_set_def range_py_def)

lemma set_end_nodes: "set (end_nodes b p) = target_set b p"
  by (auto simp: end_nodes_def target_set_def range_py_def)




subsection \<open>The search under the recursion limit\<close>

lemma card_board_nodes: "card (board_nodes b) = nat (rows b) * nat (cols b)"
  by (simp add: board_nodes_def card_cartesian_product)

lemma dfs_within_enough:
  "card ((board_nodes b \<union> {n}) - v) < d \<Longrightarrow> dfs_within d b p ends v n = Inr (dfs b p ends v n)"
  "card ((board_nodes b \<union> set ns) - v) < d \<Longrightarrow>
     dfs_neighbors_within d b p ends v n ns = Inr (dfs_neighbors b p ends v n ns)"
proof (induction b p ends v n and b p ends v n ns arbitrary: d and d
       rule: dfs_dfs_neighbors.induct)
  case (1 b player end_nodes visited node)
  from 1(2) obtain d' where d: "d = Suc d'" by (cases d) auto
  show ?case
  proof (cases "node \<in> visited \<or> node \<in> set end_nodes")
    case True
    then show ?thesis by (auto simp: d)
  next
    case False
    then have nv: "node \<notin> visited" and ne: "node \<notin> set end_nodes" by simp_all
    have fin: "finite ((board_nodes b \<union> {node}) - visited)"
      using finite_board_nodes [of b] by simp
    have "(board_nodes b \<union> set (get_neighbors b node)) - insert node visited
            \<subset> (board_nodes b \<union> {node}) - visited"
      using nv get_neighbors_in_board [of b node] by auto
    then have "card ((board_nodes b \<union> set (get_neighbors b node)) - insert node visited)
            < card ((board_nodes b \<union> {node}) - visited)"
      using fin by (rule psubset_card_mono [rotated])
    with 1(2) d have "card ((board_nodes b \<union> set (get_neighbors b node)) - insert node visited) < d'"
      by simp
    from 1(1) [OF nv ne this] nv ne show ?thesis by (simp add: d)
  qed
next
  case (2 b player end_nodes visited node)
  show ?case by simp
next
  case (3 b player end_nodes visited node neighbor rest)
  have fin: "finite ((board_nodes b \<union> set (neighbor # rest)) - visited)"
    using finite_board_nodes [of b] by simp
  show ?case
  proof (cases "get_edge_state b node neighbor = player_state player")
    case False
    have "card ((board_nodes b \<union> set rest) - visited)
            \<le> card ((board_nodes b \<union> set (neighbor # rest)) - visited)"
      by (rule card_mono [OF fin]) auto
    with 3(4) have "card ((board_nodes b \<union> set rest) - visited) < d" by simp
    from 3(3) [OF False this] False show ?thesis by simp
  next
    case True
    have "card ((board_nodes b \<union> {neighbor}) - visited)
            \<le> card ((board_nodes b \<union> set (neighbor # rest)) - visited)"
      by (rule card_mono [OF fin]) auto
    with 3(4) have "card ((board_nodes b \<union> {neighbor}) - visited) < d" by simp
    from 3(1) [OF True this]
    have inner: "dfs_within d b player end_nodes visited neighbor
                   = Inr (dfs b player end_nodes visited neighbor)" .
    obtain found v' where r: "dfs b player end_nodes visited neighbor = (found, v')"
      by (cases "dfs b player end_nodes visited neighbor")
    show ?thesis
    proof (cases found)
      case True
      with inner r \<open>get_edge_state b node neighbor = player_state player\<close>
      show ?thesis by simp
    next
      case False
      with r have "\<not> fst (dfs b player end_nodes visited neighbor)" by simp
      from dfs_complete(1) [OF this] r have "visited \<subseteq> v'" by (simp add: explored_def)
      then have "card ((board_nodes b \<union> set rest) - v')
            \<le> card ((board_nodes b \<union> set (neighbor # rest)) - visited)"
        by (intro card_mono [OF fin]) auto
      with 3(4) have lt: "card ((board_nodes b \<union> set rest) - v') < d" by simp
      from False have "found = False" by simp
      from 3(2) [OF True r [symmetric] this lt] inner r True False
      show ?thesis by simp
    qed
  qed
qed

lemma dfs_within_result:
  "dfs_within d b p ends v n = Inr r \<Longrightarrow> r = dfs b p ends v n"
  "dfs_neighbors_within d b p ends v n ns = Inr r \<Longrightarrow> r = dfs_neighbors b p ends v n ns"
proof (induction d b p ends v n and d b p ends v n ns arbitrary: r and r
       rule: dfs_within_dfs_neighbors_within.induct)
  case (1 b player ends visited node)
  then show ?case by simp
next
  case (2 depth b player ends visited node)
  show ?case
  proof (cases "node \<in> visited \<or> node \<in> set ends")
    case True
    with 2(2) show ?thesis by auto
  next
    case False
    then have nv: "node \<notin> visited" and ne: "node \<notin> set ends" by simp_all
    with 2(2) have "dfs_neighbors_within depth b player ends (insert node visited) node
                      (get_neighbors b node) = Inr r"
      by simp
    from 2(1) [OF nv ne this] nv ne show ?thesis by simp
  qed
next
  case (3 depth b player ends visited node)
  then show ?case by simp
next
  case (4 depth b player ends visited node neighbor rest)
  show ?case
  proof (cases "get_edge_state b node neighbor = player_state player")
    case False
    with 4(4) have "dfs_neighbors_within depth b player ends visited node rest = Inr r" by simp
    from 4(3) [OF False this] False show ?thesis by simp
  next
    case True
    with 4(4) obtain found v' where
      inner: "dfs_within depth b player ends visited neighbor = Inr (found, v')"
      by (cases "dfs_within depth b player ends visited neighbor") auto
    from 4(1) [OF True inner] have tot: "dfs b player ends visited neighbor = (found, v')"
      by simp
    note edge = True
    show ?thesis
    proof (cases found)
      case True
      with 4(4) inner edge have "r = (True, v')" by simp
      moreover from tot True edge
      have "dfs_neighbors b player ends visited node (neighbor # rest) = (True, v')"
        by (simp del: dfs.simps)
      ultimately show ?thesis by simp
    next
      case False
      with 4(4) inner edge
      have "dfs_neighbors_within depth b player ends v' node rest = Inr r" by simp
      moreover from False have "found = False" by simp
      ultimately have "r = dfs_neighbors b player ends v' node rest"
        using 4(2) [OF edge inner] by blast
      moreover from tot False edge
      have "dfs_neighbors b player ends visited node (neighbor # rest)
              = dfs_neighbors b player ends v' node rest"
        by (simp del: dfs.simps)
      ultimately show ?thesis by simp
    qed
  qed
qed

lemma has_path_between_sets_within_result:
  "has_path_between_sets_within d b starts ends p = Inr r
     \<Longrightarrow> r = has_path_between_sets b starts ends p"
proof (induction starts)
  case Nil
  then show ?case by simp
next
  case (Cons s starts)
  from Cons.prems obtain found v' where
    inner: "dfs_within d b p ends {} s = Inr (found, v')"
    by (cases "dfs_within d b p ends {} s") auto
  from dfs_within_result(1) [OF inner] have tot: "dfs b p ends {} s = (found, v')" by simp
  show ?case
  proof (cases found)
    case True
    with Cons.prems inner tot show ?thesis by (simp del: dfs.simps)
  next
    case False
    with Cons.prems inner have "has_path_between_sets_within d b starts ends p = Inr r"
      by simp
    from Cons.IH [OF this] tot False show ?thesis by (simp del: dfs.simps)
  qed
qed

lemma has_path_between_sets_within_enough:
  assumes "\<forall>s \<in> set starts. card (board_nodes b \<union> {s}) < d"
  shows "has_path_between_sets_within d b starts ends p
           = Inr (has_path_between_sets b starts ends p)"
  using assms
proof (induction starts)
  case Nil
  then show ?case by simp
next
  case (Cons s starts)
  from Cons.prems have "card ((board_nodes b \<union> {s}) - {}) < d" by simp
  then have inner: "dfs_within d b p ends {} s = Inr (dfs b p ends {} s)"
    by (rule dfs_within_enough(1))
  from Cons.prems have "\<forall>s \<in> set starts. card (board_nodes b \<union> {s}) < d" by simp
  from Cons.IH [OF this] inner show ?case
    by (cases "dfs b p ends {} s") (simp del: dfs.simps)
qed

text \<open>
  Whenever the search under the limit returns, it returns what \<open>has_winning_path\<close> says;
  and it returns when there is room for one activation more than the board has nodes.
\<close>

lemma has_winning_path_within_result:
  "has_winning_path_within d b p = Inr r \<Longrightarrow> r = has_winning_path b p"
  unfolding has_winning_path_within_def has_winning_path_def
  by (rule has_path_between_sets_within_result)

lemma has_winning_path_within_enough:
  assumes "card (board_nodes b) + 1 < d"
  shows "has_winning_path_within d b p = Inr (has_winning_path b p)"
  unfolding has_winning_path_within_def has_winning_path_def
proof (rule has_path_between_sets_within_enough, rule ballI)
  fix s
  have "card (board_nodes b \<union> {s}) \<le> card (board_nodes b) + 1"
    using finite_board_nodes [of b] by (simp add: card_insert_if)
  with assms show "card (board_nodes b \<union> {s}) < d" by simp
qed



lemma policy_board_depth:
  assumes "rows b \<le> 20" "cols b \<le> 20"
  shows "card (board_nodes b) \<le> 400"
proof -
  from assms have "nat (rows b) \<le> 20" "nat (cols b) \<le> 20" by simp_all
  then have "nat (rows b) * nat (cols b) \<le> 20 * 20" by (rule mult_le_mono)
  then show ?thesis by (simp add: card_board_nodes)
qed

text \<open>
  Without room the search does raise: on a row of five nodes whose four edges player 2
  owns, the search of player 2 nests five activations of \<open>dfs\<close>.
\<close>

lemma search_raises_without_room:
  "has_winning_path_within 4
     (snd (place_bridge (snd (place_bridge (snd (place_bridge (snd (place_bridge (Board 1 5)
        (0, 0) (0, 1) 2)) (0, 1) (0, 2) 2)) (0, 2) (0, 3) 2)) (0, 3) (0, 4) 2)) 2
     = Inl RecursionError
   \<and> has_winning_path_within 5
     (snd (place_bridge (snd (place_bridge (snd (place_bridge (snd (place_bridge (Board 1 5)
        (0, 0) (0, 1) 2)) (0, 1) (0, 2) 2)) (0, 2) (0, 3) 2)) (0, 3) (0, 4) 2)) 2
     = Inr True"
  by code_simp

lemma board_nodes_place_bridge:
  "board_nodes (snd (place_bridge b n1 n2 p)) = board_nodes b"
  by (simp add: place_bridge_def board_nodes_def)

text \<open>
  With room for the search, \<open>make_move\<close> under the recursion limit is \<open>make_move\<close>.
\<close>

lemma make_move_within_eq:
  assumes room: "card (board_nodes (board g)) + 1 < d"
  shows "make_move_within d g n1 n2 = make_move g n1 n2"
proof -
  have search: "has_winning_path_within d (snd (place_bridge (board g) n1 n2 p)) q
                  = Inr (has_winning_path (snd (place_bridge (board g) n1 n2 p)) q)" for p q
    using room by (intro has_winning_path_within_enough) (simp add: board_nodes_place_bridge)
  show ?thesis
  proof (cases "game_state g = PLAYING")
    case False
    then show ?thesis by (simp add: make_move_within_def make_move_def)
  next
    case pl: True
    show ?thesis
    proof (cases "get_current_player g")
      case (Inl e)
      with pl show ?thesis by (simp add: make_move_within_def make_move_def)
    next
      case (Inr cp)
      show ?thesis
      proof (cases cp)
        case None
        with pl Inr show ?thesis by (simp add: make_move_within_def make_move_def)
      next
        case (Some j)
        obtain ok b' where pb: "place_bridge (board g) n1 n2 (player_id (players g ! j)) = (ok, b')"
          by (cases "place_bridge (board g) n1 n2 (player_id (players g ! j))")
        then have b': "b' = snd (place_bridge (board g) n1 n2 (player_id (players g ! j)))"
          by simp
        show ?thesis
        proof (cases ok)
          case False
          with pl Inr Some pb show ?thesis
            by (simp add: make_move_within_def make_move_def Let_def)
        next
          case True
          have "has_winning_path_within d b' (player_id (players g ! j))
                  = Inr (has_winning_path b' (player_id (players g ! j)))"
            unfolding b' by (rule search)
          with pl Inr Some pb True show ?thesis
            by (simp add: make_move_within_def make_move_def Let_def)
        qed
      qed
    qed
  qed
qed


subsection \<open>The winning path\<close>

lemma grid_ok_Board: "grid_ok (Board R C)"
  by (simp add: grid_ok_def Board_def distinct_initialize_edges keys_initialize_edges)

lemma board_inv_grid_ok: "board_inv b h \<Longrightarrow> grid_ok b"
  by (simp add: board_inv_def grid_ok_def)

lemma reachable_grid_ok:
  assumes "reachable g"
  shows "grid_ok (board g)"
proof -
  from assms have "engine_inv g" by (rule reachable_engine_inv)
  then have "board_inv (board g) (move_history g)" by (simp add: engine_inv_def)
  then show ?thesis by (rule board_inv_grid_ok)
qed



text \<open>
  The engine does not check the size of the board; the caller does
  (\<open>validate_board_size\<close>: between 3 and 20 rows and columns).  Outside that bound the
  search behaves differently: on a grid with a single row, row 0 is also the last row, the
  search finds the first start node among the targets, and player 1 has a winning path
  while owning no edge; and on a long enough path the recursion limit stops the search
  (\<open>search_raises_without_room\<close>).
\<close>

lemma single_row_wins_without_edges:
  "grid_ok (Board 1 3) \<and> get_player_edges (Board 1 3) 1 = {} \<and> has_winning_path (Board 1 3) 1"
proof -
  have "get_player_edges (Board 1 3) 1 = {}" "has_winning_path (Board 1 3) 1"
    by code_simp+
  with grid_ok_Board [of 1 3] show ?thesis by simp
qed




section \<open>How the engine signals failure\<close>

lemma reachable_players_le_2: "reachable g \<Longrightarrow> length (players g) \<le> 2"
proof -
  assume "reachable g"
  then have "players_inv (players g) (move_history g)"
    by (simp add: reachable_engine_inv [unfolded engine_inv_def])
  then have "length (map player_id (players g)) = length (take (length (players g)) [1::int, 2])"
    by (simp add: players_inv_def)
  then show ?thesis by simp
qed

text \<open>
  Claim C5, as stated, fails: \<open>add_player\<close> on an engine with two players raises
  \<open>ValueError\<close>, which reaches the caller.
\<close>

theorem add_player_third_raises:
  "length (players two_player_game) = 2
   \<and> fst (add_player two_player_game ''Cy'' ''Green'' HUMAN) = Inl ValueError"
  by code_simp

text \<open>
  Claim C5, amended.  Normal operation is a reachable engine whose board is within the
  size that the caller allows (at most 20 rows and columns).  There \<open>make_move\<close> and
  \<open>undo_last_move\<close> never raise: they return a boolean, and when it is false the engine
  is unchanged; a failing \<open>start_game\<close> changes nothing either.  The search inside
  \<open>make_move\<close> stays below the recursion limit: with room for 402 nested activations of
  \<open>dfs\<close> the method under the limit is \<open>make_move\<close>.  \<open>add_player\<close> returns the new
  player while fewer than two are registered; with two registered it raises
  \<open>ValueError\<close> and leaves the engine, and so the player list, unchanged.
\<close>

theorem engine_failure_signals:
  assumes r: "reachable g" and size: "rows (board g) \<le> 20" "cols (board g) \<le> 20"
  shows "(\<exists>ok. fst (make_move g node1 node2) = Inr ok)
       \<and> (\<forall>depth \<ge> 402. make_move_within depth g node1 node2 = make_move g node1 node2)
       \<and> (\<exists>ok. fst (undo_last_move g) = Inr ok)
       \<and> (fst (make_move g node1 node2) = Inr False \<longrightarrow> snd (make_move g node1 node2) = g)
       \<and> (fst (undo_last_move g) = Inr False \<longrightarrow> snd (undo_last_move g) = g)
       \<and> (\<not> fst (start_game g) \<longrightarrow> snd (start_game g) = g)
       \<and> (length (players g) < 2 \<longrightarrow> (\<exists>p. fst (add_player g nm col ptype) = Inr p))
       \<and> (length (players g) \<ge> 2 \<longrightarrow> add_player g nm col ptype = (Inl ValueError, g))
       \<and> length (players g) \<le> 2"
proof -
  from r have inv: "engine_inv g" by (rule reachable_engine_inv)
  have mv: "(\<exists>ok. fst (make_move g node1 node2) = Inr ok)
          \<and> (fst (make_move g node1 node2) = Inr False \<longrightarrow> snd (make_move g node1 node2) = g)"
    using inv by (cases rule: make_move_cases [where ?n1.0 = node1 and ?n2.0 = node2]) auto
  have un: "(\<exists>ok. fst (undo_last_move g) = Inr ok)
          \<and> (fst (undo_last_move g) = Inr False \<longrightarrow> snd (undo_last_move g) = g)"
    using inv by (cases rule: undo_last_move_cases) auto
  have st: "\<not> fst (start_game g) \<longrightarrow> snd (start_game g) = g"
    by (simp add: start_game_def)
  have ad: "(length (players g) < 2 \<longrightarrow> (\<exists>p. fst (add_player g nm col ptype) = Inr p))
          \<and> (length (players g) \<ge> 2 \<longrightarrow> add_player g nm col ptype = (Inl ValueError, g))"
    by (simp add: add_player_def Let_def)
  have lim: "\<forall>depth \<ge> 402. make_move_within depth g node1 node2 = make_move g node1 node2"
  proof (intro allI impI)
    fix depth :: nat assume "402 \<le> depth"
    with policy_board_depth [OF size] have "card (board_nodes (board g)) + 1 < depth" by simp
    then show "make_move_within depth g node1 node2 = make_move g node1 node2"
      by (rule make_move_within_eq)
  qed
  from mv lim un st ad reachable_players_le_2 [OF r] show ?thesis by blast
qed

theorem engine_failure_signals_witness:
  "reachable two_player_game
   \<and> rows (board two_player_game) \<le> 20 \<and> cols (board two_player_game) \<le> 20
   \<and> add_player two_player_game ''Cy'' ''Green'' HUMAN = (Inl ValueError, two_player_game)
   \<and> (\<exists>ok. fst (make_move two_player_game (0, 0) (0, 1)) = Inr ok)
   \<and> snd (make_move two_player_game (0, 0) (0, 1)) = two_player_game
   \<and> reachable started_game
   \<and> make_move_within 402 started_game (0, 0) (0, 1) = make_move started_game (0, 0) (0, 1)
   \<and> fst (make_move_within 402 started_game (0, 0) (0, 1)) = Inr True"
proof -
  have len: "length (players two_player_game) \<ge> 2" by code_simp
  have no: "fst (make_move two_player_game (0, 0) (0, 1)) = Inr False" by code_simp
  have size: "rows (board two_player_game) \<le> 20" "cols (board two_player_game) \<le> 20"
    by code_simp+
  have size': "rows (board started_game) \<le> 20" "cols (board started_game) \<le> 20"
    by code_simp+
  have yes: "fst (make_move started_game (0, 0) (0, 1)) = Inr True" by code_simp
  from engine_failure_signals [OF reachable_two_player_game size, of "(0, 0)" "(0, 1)"] len no
  have 1: "add_player two_player_game ''Cy'' ''Green'' HUMAN = (Inl ValueError, two_player_game)
         \<and> (\<exists>ok. fst (make_move two_player_game (0, 0) (0, 1)) = Inr ok)
         \<and> snd (make_move two_player_game (0, 0) (0, 1)) = two_player_game"
    by blast
  from engine_failure_signals [OF reachable_started_game size', of "(0, 0)" "(0, 1)"]
  have 2: "make_move_within 402 started_game (0, 0) (0, 1) = make_move started_game (0, 0) (0, 1)"
    by simp
  from 1 2 yes size reachable_two_player_game reachable_started_game show ?thesis by simp
qed


section \<open>The winning move\<close>

lemma make_move_success:
  assumes "make_move g n1 n2 = (Inr True, g')"
  obtains j where "game_state g = PLAYING" "get_current_player g = Inr (Some j)"
    "j < length (players g)" "is_valid_move (board g) n1 n2"
    "g' = (if has_winning_path (board (move_recorded g j n1 n2)) (player_id (players g ! j))
           then (move_recorded g j n1 n2)\<lparr>winner := Some j, game_state := FINISHED\<rparr>
           else (move_recorded g j n1 n2)\<lparr>current_player_index := 1 - current_player_index g\<rparr>)"
proof -
  from assms have pl: "game_state g = PLAYING"
    by (auto simp: make_move_def split: if_splits)
  from assms pl obtain j where cp: "get_current_player g = Inr (Some j)"
    by (auto simp: make_move_def split: sum.splits option.splits)
  from cp pl have j: "j < length (players g)"
    by (auto simp: get_current_player_def list_position_def split: if_splits)
  from assms pl cp have v: "is_valid_move (board g) n1 n2"
    by (auto simp: make_move_def place_bridge_def Let_def split: if_splits)
  from assms pl cp v
  have "g' = (if has_winning_path (board (move_recorded g j n1 n2)) (player_id (players g ! j))
           then (move_recorded g j n1 n2)\<lparr>winner := Some j, game_state := FINISHED\<rparr>
           else (move_recorded g j n1 n2)\<lparr>current_player_index := 1 - current_player_index g\<rparr>)"
    by (auto simp: make_move_def place_bridge_def Let_def move_recorded_def)
  with pl cp j v show ?thesis by (rule that)
qed

lemma winning_move_general:
  assumes pl: "game_state g = PLAYING" and cp: "get_current_player g = Inr (Some j)"
    and mv: "make_move g n1 n2 = (Inr True, g')"
    and win: "has_winning_path (board g') (player_id (players g ! j))"
  shows "move_history g' = move_history g @ [(n1, n2, player_id (players g ! j))]
       \<and> players g' = (players g)[j := (players g ! j)\<lparr>moves_made := moves_made (players g ! j) + 1\<rparr>]
       \<and> moves_made (players g' ! j) = moves_made (players g ! j) + 1
       \<and> winner g' = Some j
       \<and> game_state g' = FINISHED
       \<and> current_player_index g' = current_player_index g
       \<and> (\<forall>x y. make_move g' x y = (Inr False, g'))"
proof -
  from mv obtain j' where j': "get_current_player g = Inr (Some j')" "j' < length (players g)"
    and g': "g' = (if has_winning_path (board (move_recorded g j' n1 n2)) (player_id (players g ! j'))
           then (move_recorded g j' n1 n2)\<lparr>winner := Some j', game_state := FINISHED\<rparr>
           else (move_recorded g j' n1 n2)\<lparr>current_player_index := 1 - current_player_index g\<rparr>)"
    by (rule make_move_success)
  from cp j'(1) have jj: "j' = j" by simp
  have b: "board g' = board (move_recorded g j n1 n2)"
    unfolding g' jj by simp
  with win have "has_winning_path (board (move_recorded g j n1 n2)) (player_id (players g ! j))"
    by simp
  with g' jj have fin: "g' = (move_recorded g j n1 n2)\<lparr>winner := Some j, game_state := FINISHED\<rparr>"
    by simp
  then have st: "game_state g' = FINISHED" by simp
  have "\<forall>x y. make_move g' x y = (Inr False, g')"
    using st by (simp add: make_move_def)
  with fin j'(2) jj show ?thesis
    by (simp add: move_recorded_def)
qed

lemma two_in_a_column_wins:
  assumes r: "rows b = 3" "cols b = 3"
    and e1: "get_edge_state b (0, 0) (1, 0) = PLAYER1"
    and e2: "get_edge_state b (1, 0) (2, 0) = PLAYER1"
  shows "has_winning_path b 1"
proof -
  have s1: "((0, 0), (1, 0)) \<in> search_step b 1"
    using r e1 by (simp add: search_step_def in_get_neighbors player_state_def)
  have s2: "((1, 0), (2, 0)) \<in> search_step b 1"
    using r e2 by (simp add: search_step_def in_get_neighbors player_state_def)
  from s1 s2 have path: "((0, 0), (2, 0)) \<in> (search_step b 1)\<^sup>*" by auto
  have "(0, 0) \<in> start_set b 1" "(2, 0) \<in> target_set b 1"
    using r by (simp_all add: start_set_def target_set_def)
  with path show ?thesis
    unfolding has_winning_path_search set_start_nodes set_end_nodes by blast
qed

lemma column_scenario:
  assumes m2: "make_move (snd (make_move started_game (0, 0) (1, 0))) a c = (Inr True, g2)"
    and m3: "make_move g2 (1, 0) (2, 0) = (Inr True, g3)"
  shows "has_winning_path (board g3) 1 \<and> winner g3 = Some 0 \<and> player_id (players g3 ! 0) = 1
       \<and> game_state g3 = FINISHED \<and> (\<forall>x y. make_move g3 x y = (Inr False, g3))"
proof -
  let ?g1 = "snd (make_move started_game (0, 0) (1, 0))"
  have g1: "current_player_index ?g1 = 1" "rows (board ?g1) = 3" "cols (board ?g1) = 3"
    "map_of (edges (board ?g1)) ((0, 0), (1, 0)) = Some PLAYER1"
    "map player_id (players ?g1) = [1, 2]"
    by code_simp+
  have r1: "reachable ?g1" by (intro reachable.intros reachable_started_game)
  then have inv1: "engine_inv ?g1" by (rule reachable_engine_inv)
  from g1(5) obtain p1 p2 where ps1: "players ?g1 = [p1, p2]" "player_id p1 = 1" "player_id p2 = 2"
    by (cases "players ?g1"; cases "tl (players ?g1)") auto
  \<comment> \<open>the move of player 2\<close>
  from m2 obtain j where pl1: "game_state ?g1 = PLAYING"
    and cp1: "get_current_player ?g1 = Inr (Some j)"
    and v2: "is_valid_move (board ?g1) a c"
    and g2: "g2 = (if has_winning_path (board (move_recorded ?g1 j a c)) (player_id (players ?g1 ! j))
           then (move_recorded ?g1 j a c)\<lparr>winner := Some j, game_state := FINISHED\<rparr>
           else (move_recorded ?g1 j a c)\<lparr>current_player_index := 1 - current_player_index ?g1\<rparr>)"
    by (rule make_move_success)
  from current_player_in_play(1) [OF inv1 pl1] cp1 g1(1) have j: "j = 1" by simp
  from m3 have pl2: "game_state g2 = PLAYING" by (rule make_move_success)
  with g2 have g2': "g2 = (move_recorded ?g1 j a c)\<lparr>current_player_index := 1 - current_player_index ?g1\<rparr>"
    by (auto split: if_splits)
  from v2 g1(4) have ne: "normalize_edge a c \<noteq> ((0, 0), (1, 0))"
    by (auto simp: is_valid_move_def)
  have b2: "rows (board g2) = 3" "cols (board g2) = 3"
    "map_of (edges (board g2)) ((0, 0), (1, 0)) = Some PLAYER1"
    using g1(2,3,4) ne by (simp_all add: g2' move_recorded_def update_conv')
  have idx2: "current_player_index g2 = 0" by (simp add: g2' g1(1))
  have ps2: "player_id (players g2 ! 0) = 1"
    by (simp add: g2' move_recorded_def j ps1)
  from r1 have "reachable (snd (make_move ?g1 a c))" by (rule reach_make_move)
  with m2 have "reachable g2" by simp
  then have inv2: "engine_inv g2" by (rule reachable_engine_inv)
  \<comment> \<open>the second move of player 1\<close>
  from m3 obtain k where cp2: "get_current_player g2 = Inr (Some k)"
    and v3: "is_valid_move (board g2) (1, 0) (2, 0)"
    and g3: "g3 = (if has_winning_path (board (move_recorded g2 k (1, 0) (2, 0))) (player_id (players g2 ! k))
           then (move_recorded g2 k (1, 0) (2, 0))\<lparr>winner := Some k, game_state := FINISHED\<rparr>
           else (move_recorded g2 k (1, 0) (2, 0))\<lparr>current_player_index := 1 - current_player_index g2\<rparr>)"
    by (rule make_move_success)
  from current_player_in_play(1) [OF inv2 pl2] cp2 idx2 have k: "k = 0" by simp
  let ?b3 = "board (move_recorded g2 0 (1, 0) (2, 0))"
  have n12: "normalize_edge (1, 0) (2, 0) = ((1, 0), (2, 0))"
    by (simp add: normalize_edge_def node_less_def)
  have n01: "normalize_edge (0, 0) (1, 0) = ((0, 0), (1, 0))"
    by (simp add: normalize_edge_def node_less_def)
  have b3: "rows ?b3 = 3" "cols ?b3 = 3"
    using b2 by (simp_all add: move_recorded_def)
  have e1: "get_edge_state ?b3 (0, 0) (1, 0) = PLAYER1"
    using b2(3) by (simp add: move_recorded_def get_edge_state_def update_conv' n12 n01)
  have e2: "get_edge_state ?b3 (1, 0) (2, 0) = PLAYER1"
    using ps2 by (simp add: move_recorded_def get_edge_state_def update_conv' n12 player_state_def)
  from b3 e1 e2 have win: "has_winning_path ?b3 1" by (rule two_in_a_column_wins)
  with g3 k ps2
  have fin: "g3 = (move_recorded g2 0 (1, 0) (2, 0))\<lparr>winner := Some 0, game_state := FINISHED\<rparr>"
    by simp
  then have st: "game_state g3 = FINISHED" by simp
  then have "\<forall>x y. make_move g3 x y = (Inr False, g3)" by (simp add: make_move_def)
  moreover have "player_id (players g3 ! 0) = 1"
    using ps2 inv2 pl2 current_player_in_play(3) [OF inv2 pl2]
    by (simp add: fin move_recorded_def)
  moreover have "has_winning_path (board g3) 1" using win by (simp add: fin)
  ultimately show ?thesis using st by (simp add: fin)
qed


text \<open>
  Claim C2.  In phase \<open>PLAYING\<close>, a successful \<open>make_move\<close> after which the mover (the
  player at the current position \<open>j\<close>) has a winning path appends the move to the
  history, increments the mover's counter, sets the winner to the mover and the phase to
  \<open>FINISHED\<close>, and leaves the current player index as it was; every later \<open>make_move\<close>
  returns false.  On the 3 by 3 game, when player 1 places (0,0)-(1,0), player 2 makes any
  successful move, and player 1 places (1,0)-(2,0), player 1 has a winning path, is the
  winner, the phase is \<open>FINISHED\<close> and every later \<open>make_move\<close> returns false.
\<close>

theorem winning_move_finishes_game:
  "(game_state g = PLAYING \<and> get_current_player g = Inr (Some j)
      \<and> make_move g n1 n2 = (Inr True, g')
      \<and> has_winning_path (board g') (player_id (players g ! j))
    \<longrightarrow> move_history g' = move_history g @ [(n1, n2, player_id (players g ! j))]
        \<and> players g' = (players g)[j := (players g ! j)\<lparr>moves_made := moves_made (players g ! j) + 1\<rparr>]
        \<and> moves_made (players g' ! j) = moves_made (players g ! j) + 1
        \<and> winner g' = Some j
        \<and> game_state g' = FINISHED
        \<and> current_player_index g' = current_player_index g
        \<and> (\<forall>x y. make_move g' x y = (Inr False, g')))
   \<and> fst (make_move started_game (0, 0) (1, 0)) = Inr True
   \<and> (make_move (snd (make_move started_game (0, 0) (1, 0))) a c = (Inr True, g2)
      \<and> make_move g2 (1, 0) (2, 0) = (Inr True, g3)
    \<longrightarrow> has_winning_path (board g3) 1
        \<and> winner g3 = Some 0 \<and> player_id (players g3 ! 0) = 1
        \<and> game_state g3 = FINISHED
        \<and> (\<forall>x y. make_move g3 x y = (Inr False, g3)))"
proof -
  have first: "fst (make_move started_game (0, 0) (1, 0)) = Inr True" by code_simp
  have general:
    "game_state g = PLAYING \<and> get_current_player g = Inr (Some j)
      \<and> make_move g n1 n2 = (Inr True, g')
      \<and> has_winning_path (board g') (player_id (players g ! j))
    \<longrightarrow> move_history g' = move_history g @ [(n1, n2, player_id (players g ! j))]
        \<and> players g' = (players g)[j := (players g ! j)\<lparr>moves_made := moves_made (players g ! j) + 1\<rparr>]
        \<and> moves_made (players g' ! j) = moves_made (players g ! j) + 1
        \<and> winner g' = Some j
        \<and> game_state g' = FINISHED
        \<and> current_player_index g' = current_player_index g
        \<and> (\<forall>x y. make_move g' x y = (Inr False, g'))"
    using winning_move_general [of g j n1 n2 g'] by blast
  have concrete:
    "make_move (snd (make_move started_game (0, 0) (1, 0))) a c = (Inr True, g2)
      \<and> make_move g2 (1, 0) (2, 0) = (Inr True, g3)
    \<longrightarrow> has_winning_path (board g3) 1
        \<and> winner g3 = Some 0 \<and> player_id (players g3 ! 0) = 1
        \<and> game_state g3 = FINISHED
        \<and> (\<forall>x y. make_move g3 x y = (Inr False, g3))"
    using column_scenario [of a c g2 g3] by blast
  from general first concrete show ?thesis by (intro conjI)
qed

theorem winning_move_finishes_game_witness:
  "game_state (moves started_game [((0, 0), (1, 0)), ((0, 1), (0, 2))]) = PLAYING
   \<and> get_current_player (moves started_game [((0, 0), (1, 0)), ((0, 1), (0, 2))]) = Inr (Some 0)
   \<and> fst (make_move (moves started_game [((0, 0), (1, 0)), ((0, 1), (0, 2))]) (1, 0) (2, 0)) = Inr True
   \<and> has_winning_path (board finished_game) 1
   \<and> winner finished_game = Some 0
   \<and> game_state finished_game = FINISHED
   \<and> current_player_index finished_game
        = current_player_index (moves started_game [((0, 0), (1, 0)), ((0, 1), (0, 2))])
   \<and> (\<forall>x y. make_move finished_game x y = (Inr False, finished_game))"
proof -
  let ?g1 = "snd (make_move started_game (0, 0) (1, 0))"
  let ?g2 = "moves started_game [((0, 0), (1, 0)), ((0, 1), (0, 2))]"
  have g2: "?g2 = snd (make_move ?g1 (0, 1) (0, 2))" by (simp add: moves_def)
  have g3: "finished_game = snd (make_move ?g2 (1, 0) (2, 0))"
    by (simp add: finished_game_def moves_def)
  have pl: "game_state ?g2 = PLAYING" by code_simp
  have cp: "get_current_player ?g2 = Inr (Some 0)" by code_simp
  have ok2: "fst (make_move ?g1 (0, 1) (0, 2)) = Inr True" by code_simp
  have ok3: "fst (make_move ?g2 (1, 0) (2, 0)) = Inr True" by code_simp
  have id1: "player_id (players ?g2 ! 0) = 1" by code_simp
  from ok2 g2 have m2: "make_move ?g1 (0, 1) (0, 2) = (Inr True, ?g2)"
    by (simp add: prod_eq_iff)
  from ok3 g3 have m3: "make_move ?g2 (1, 0) (2, 0) = (Inr True, finished_game)"
    by (simp add: prod_eq_iff)
  note inst = winning_move_finishes_game
    [of ?g2 0 "(1, 0)" "(2, 0)" finished_game "(0, 1)" "(0, 2)" ?g2 finished_game]
  from inst m2 m3 have win: "has_winning_path (board finished_game) 1" by blast
  with inst pl cp m3 id1 have
    "winner finished_game = Some 0 \<and> game_state finished_game = FINISHED
     \<and> current_player_index finished_game = current_player_index ?g2
     \<and> (\<forall>x y. make_move finished_game x y = (Inr False, finished_game))"
    by simp
  with pl cp ok3 win show ?thesis by simp
qed


end
